theory Spec2Isabelle
  imports Complex_Main
begin

section \<open>pyFIR: block convolution with FIR filters\<close>

text \<open>
  A shallow embedding of the class \<open>FIRfilter\<close> of \<open>pyFIR.py\<close>: the constructor,
  \<open>generate_ref\<close>, \<open>normalize_output\<close>, \<open>optimize_UPOLS_parameters\<close>, \<open>fft_conv\<close>,
  \<open>OLA\<close>, \<open>OLS\<close>, \<open>UPOLS\<close> and \<open>process\<close>.

  Scope of the model.
  \<^item> Arrays are one-dimensional: an impulse response and an audio block are lists of
    numbers (one channel, \<open>N_ch = 1\<close>). The attributes \<open>Nh\<close> and \<open>N_ch\<close>, which no
    method reads back in this setting, are not fields of the state.
  \<^item> Floating-point numbers are real (and complex) numbers and the transforms are the exact
    discrete Fourier transforms. The one place where IEEE arithmetic is kept is the
    division of \<open>normalize_output\<close>, whose quotient by zero is an infinity or a NaN.
  \<^item> numpy is the numpy of the 1.x series the module imports from (\<open>numpy.core.numeric.Inf\<close>,
    the \<open>complex_\<close> dtype). Comparing arrays whose shapes cannot be broadcast gives \<open>True\<close>
    for \<open>!=\<close> there.
  \<^item> An exception leaves the object as mutated so far: a failing method returns the
    exception together with the state at the point of the raise.
\<close>

subsection \<open>Errors and results\<close>

datatype py_error =
  ValueError | IndexError | ZeroDivisionError | UnboundLocalError
  | AttributeError | OverflowError | AssertionError

definition ebind :: "'e + 'a \<Rightarrow> ('a \<Rightarrow> 'e + 'b) \<Rightarrow> 'e + 'b" where
  "ebind m f = (case m of Inl e \<Rightarrow> Inl e | Inr v \<Rightarrow> f v)"

definition raise_in :: "'s \<Rightarrow> py_error + 'a \<Rightarrow> (py_error \<times> 's) + 'a" where
  "raise_in s r = (case r of Inl e \<Rightarrow> Inl (e, s) | Inr v \<Rightarrow> Inr v)"

subsection \<open>numpy primitives on one-dimensional arrays\<close>

text \<open>\<open>a[-k:]\<close>: the last \<open>k\<close> entries, the whole array when \<open>k = 0\<close> or \<open>k\<close> exceeds the length.\<close>

definition py_last :: "nat \<Rightarrow> 'a list \<Rightarrow> 'a list" where
  "py_last k a = (if k = 0 then a else drop (length a - k) a)"

text \<open>
  Assignment of an array to a slice of \<open>m\<close> entries: the value must have \<open>m\<close> entries or one
  entry (which is then repeated); anything else is numpy's broadcast \<open>ValueError\<close>.
\<close>

definition fit_slice :: "nat \<Rightarrow> 'a list \<Rightarrow> py_error + 'a list" where
  "fit_slice m v =
     (if length v = m then Inr v
      else if length v = 1 then Inr (replicate m (hd v))
      else Inl ValueError)"

text \<open>\<open>a[-k:] = v\<close>\<close>

definition set_last :: "nat \<Rightarrow> 'a list \<Rightarrow> 'a list \<Rightarrow> py_error + 'a list" where
  "set_last k a v =
     (let m = length (py_last k a)
      in ebind (fit_slice m v) (\<lambda>w. Inr (take (length a - m) a @ w)))"

text \<open>\<open>a[:k]\<close> for a Python integer \<open>k\<close>: a negative \<open>k\<close> counts from the end.\<close>

definition py_take :: "int \<Rightarrow> 'a list \<Rightarrow> 'a list" where
  "py_take k a = (if 0 \<le> k then take (nat k) a else take (length a - nat (- k)) a)"

text \<open>\<open>a[:k] = v\<close>\<close>

definition set_first :: "int \<Rightarrow> 'a list \<Rightarrow> 'a list \<Rightarrow> py_error + 'a list" where
  "set_first k a v =
     (let m = length (py_take k a)
      in ebind (fit_slice m v) (\<lambda>w. Inr (w @ drop m a)))"

text \<open>An elementwise binary operation, with numpy's broadcasting of a one-entry operand.\<close>

definition np_binop :: "('a \<Rightarrow> 'a \<Rightarrow> 'a) \<Rightarrow> 'a list \<Rightarrow> 'a list \<Rightarrow> py_error + 'a list" where
  "np_binop f a b =
     (if length a = length b then Inr (map2 f a b)
      else if length a = 1 then Inr (map (f (hd a)) b)
      else if length b = 1 then Inr (map (\<lambda>v. f v (hd b)) a)
      else Inl ValueError)"

text \<open>\<open>np.roll(a, 1, axis=0)\<close> on the rows of a matrix: the last row comes first.\<close>

definition roll_rows :: "'a list \<Rightarrow> 'a list" where
  "roll_rows rows = (if rows = [] then [] else last rows # butlast rows)"

text \<open>\<open>np.sum(M, axis=0)\<close> for a matrix with at least one row: the sums of the columns.\<close>

definition sum_axis0 :: "complex list list \<Rightarrow> complex list" where
  "sum_axis0 rows = map (\<lambda>j. sum_list (map (\<lambda>r. r ! j) rows)) [0..<length (hd rows)]"

text \<open>A sequence of results, stopping at the first exception.\<close>

fun collect :: "('e + 'a) list \<Rightarrow> 'e + 'a list" where
  "collect [] = Inr []"
| "collect (r # rs) = ebind r (\<lambda>v. ebind (collect rs) (\<lambda>vs. Inr (v # vs)))"

subsection \<open>The discrete Fourier transform\<close>

text \<open>
  \<open>numpy.fft.fft(a, n)\<close> cuts or zero-pads \<open>a\<close> to \<open>n\<close> entries and transforms it;
  \<open>n < 1\<close> is a \<open>ValueError\<close>. \<open>numpy.fft.ifft\<close> is the inverse transform, scaled by \<open>1/n\<close>.
\<close>

definition resize :: "nat \<Rightarrow> 'a::zero list \<Rightarrow> 'a list" where
  "resize n a = take n a @ replicate (n - length a) 0"

definition dft_coeff :: "complex list \<Rightarrow> nat \<Rightarrow> complex" where
  "dft_coeff a k =
     (\<Sum>n<length a. a ! n * cis (- (2 * pi * real k * real n / real (length a))))"

definition dft :: "complex list \<Rightarrow> complex list" where
  "dft a = map (dft_coeff a) [0..<length a]"

definition idft_coeff :: "complex list \<Rightarrow> nat \<Rightarrow> complex" where
  "idft_coeff Y n =
     (\<Sum>k<length Y. Y ! k * cis (2 * pi * real k * real n / real (length Y)))
       / of_nat (length Y)"

definition idft :: "complex list \<Rightarrow> complex list" where
  "idft Y = map (idft_coeff Y) [0..<length Y]"

text \<open>The transform of a real array.\<close>

definition rdft :: "real list \<Rightarrow> complex list" where
  "rdft a = dft (map complex_of_real a)"

definition np_fft :: "real list \<Rightarrow> int \<Rightarrow> py_error + complex list" where
  "np_fft a n = (if n < 1 then Inl ValueError else Inr (rdft (resize (nat n) a)))"

definition np_ifft_real :: "complex list \<Rightarrow> py_error + real list" where
  "np_ifft_real Y = (if length Y < 1 then Inl ValueError else Inr (map Re (idft Y)))"

subsection \<open>Output samples\<close>

text \<open>
  \<open>normalize_output\<close> divides by \<open>self.ref\<close> without a guard. numpy does not raise on a
  zero divisor: the quotient is \<open>nan\<close> for \<open>0/0\<close> and a signed infinity otherwise (\<open>ref\<close> is a
  sum of absolute values, so a zero \<open>ref\<close> is \<open>+0.0\<close>).
\<close>

datatype sample = Finite real | PosInf | NegInf | NaN

definition float_div :: "real \<Rightarrow> real \<Rightarrow> sample" where
  "float_div v r =
     (if r \<noteq> 0 then Finite (v / r)
      else if v = 0 then NaN
      else if 0 < v then PosInf else NegInf)"

fun is_finite :: "sample \<Rightarrow> bool" where
  "is_finite (Finite v) = True"
| "is_finite PosInf = False"
| "is_finite NegInf = False"
| "is_finite NaN = False"

subsection \<open>The parameter search for UPOLS\<close>

definition cost :: "nat \<Rightarrow> nat \<Rightarrow> nat \<Rightarrow> nat \<Rightarrow> real" where
  "cost b N L K =
     1 / real b * (1.68 * real K * log 2 (real K) + 3.49 * real K * log 2 (real K)
       + 6 * ((real K + 1) / 2) + ((real N / real L) - 1) * 8 * ((real K + 1) / 2))"

text \<open>
  The running optimum \<open>(c_opt, L_opt, K_opt)\<close>; \<open>None\<close> stands for \<open>c_opt = Inf\<close> with
  \<open>L_opt\<close> and \<open>K_opt\<close> not yet bound.
\<close>

type_synonym opt_acc = "(real \<times> nat \<times> nat) option"

definition try_K :: "nat \<Rightarrow> nat \<Rightarrow> nat \<Rightarrow> opt_acc \<Rightarrow> nat \<Rightarrow> opt_acc" where
  "try_K b N L acc K =
     (let c = cost b N L K in
      case acc of
        None \<Rightarrow> Some (c, L, K)
      | Some (c_opt, L_opt, K_opt) \<Rightarrow> if c < c_opt then Some (c, L, K) else acc)"

definition K_min_of :: "nat \<Rightarrow> nat \<Rightarrow> nat" where
  "K_min_of b L = (let d_max = b - gcd L b in b + L + d_max - 1)"

definition K_range :: "nat \<Rightarrow> nat \<Rightarrow> nat list" where
  "K_range b L =
     (let K_min = K_min_of b L;
          K_max = 2 ^ nat \<lceil>log 2 (real K_min)\<rceil>;
          k0 = min K_min K_max;
          k1 = max K_min K_max;
          k1' = (if k0 = k1 then k1 + 1 else k1)
      in [k0..<k1' + 1])"

definition try_L :: "nat \<Rightarrow> nat \<Rightarrow> opt_acc \<Rightarrow> nat \<Rightarrow> opt_acc" where
  "try_L b N acc L = foldl (try_K b N L) acc (K_range b L)"

definition rang :: "nat \<Rightarrow> nat list" where
  "rang N = map (\<lambda>k. 2 ^ k) [0..<nat \<lfloor>log 2 (real N)\<rfloor>]"

text \<open>
  \<open>N = 0\<close>: \<open>int(np.log2(0))\<close> is \<open>int(-inf)\<close>, an \<open>OverflowError\<close>. No candidate: the loop body
  never runs and \<open>return L_opt, K_opt\<close> reads unbound locals. \<open>B = 0\<close> with a candidate:
  \<open>K_min = -1\<close> at \<open>L = 1\<close> and \<open>int(2**np.ceil(np.log2(-1)))\<close> is \<open>int(nan)\<close>, a \<open>ValueError\<close>.
\<close>

definition optimize_UPOLS_parameters :: "nat \<Rightarrow> nat \<Rightarrow> py_error + (nat \<times> nat)" where
  "optimize_UPOLS_parameters N b =
     (if N = 0 then Inl OverflowError
      else if rang N = [] then Inl UnboundLocalError
      else if b = 0 then Inl ValueError
      else case foldl (try_L b N) None (rang N) of
             None \<Rightarrow> Inl UnboundLocalError
           | Some (c_opt, L_opt, K_opt) \<Rightarrow> Inr (L_opt, K_opt))"

subsection \<open>The engine state\<close>

text \<open>
  The constructor lower-cases the method name and asserts that it is one of
  \<open>overlap-save\<close>, \<open>overlap-add\<close>, \<open>ols\<close>, \<open>ola\<close>, \<open>upols\<close>; \<open>process\<close> dispatches on the
  name. The state keeps the algorithm the name selects.
\<close>

datatype fir_method = OverlapSave | OverlapAdd | Upols

definition lower_char :: "char \<Rightarrow> char" where
  "lower_char c =
     (case map_of (zip ''ABCDEFGHIJKLMNOPQRSTUVWXYZ'' ''abcdefghijklmnopqrstuvwxyz'') c of
        None \<Rightarrow> c
      | Some d \<Rightarrow> d)"

definition lower :: "string \<Rightarrow> string" where
  "lower s = map lower_char s"

definition parse_method :: "string \<Rightarrow> fir_method option" where
  "parse_method name =
     (let m = lower name in
      if m = ''overlap-save'' \<or> m = ''ols'' then Some OverlapSave
      else if m = ''overlap-add'' \<or> m = ''ola'' then Some OverlapAdd
      else if m = ''upols'' then Some Upols
      else None)"

text \<open>
  Attributes that Python creates later (\<open>H\<close>, the buffers, \<open>P\<close>, \<open>nm\<close>, \<open>FDL\<close>, \<open>len_y_left\<close>)
  start empty here; each is assigned before it is first read. \<open>H\<close> is a vector under
  OLA and OLS and a matrix with one row per partition under UPOLS; as the method of an
  engine never changes, the two are the fields \<open>H\<close> and \<open>H_upols\<close>. The field
  \<open>method_kind\<close> is the attribute \<open>method\<close>, \<open>partition_sz\<close> is \<open>partition\<close> and
  \<open>normalize_flag\<close> is \<open>normalize\<close>.
\<close>

record firfilter =
  method_kind :: fir_method
  B :: nat
  NFFT :: "int option"
  flagIRchanged :: bool
  stored_h :: "real list option"
  ref :: "real option"
  left_overs :: "real list"
  len_y_left :: int
  partition_sz :: "nat option"
  normalize_flag :: bool
  H :: "complex list"
  H_upols :: "complex list list"
  OLS_input_buffer :: "real list"
  input_buffer :: "real list"
  P :: nat
  nm :: "nat list"
  FDL :: "complex list list"

type_synonym 'a result = "(py_error \<times> firfilter) + 'a"

text \<open>\<open>generate_ref\<close>: the sum of the absolute coefficients of the stored impulse response.\<close>

definition generate_ref :: "firfilter \<Rightarrow> firfilter" where
  "generate_ref s =
     (case stored_h s of
        None \<Rightarrow> s
      | Some h \<Rightarrow> s\<lparr>ref := Some (sum_list (map abs h))\<rparr>)"

definition normalize_output :: "firfilter \<Rightarrow> real list \<Rightarrow> py_error + sample list" where
  "normalize_output s data =
     (case ref s of
        None \<Rightarrow> Inl AttributeError
      | Some r \<Rightarrow> Inr (map (\<lambda>v. float_div v r) data))"

text \<open>The last lines of \<open>OLA\<close>, \<open>OLS\<close> and \<open>UPOLS\<close>: the block, normalized or as it is.\<close>

definition emit :: "firfilter \<Rightarrow> real list \<Rightarrow> (firfilter \<times> sample list) result" where
  "emit s out =
     (if normalize_flag s
      then ebind (raise_in s (normalize_output s out)) (\<lambda>block. Inr (s, block))
      else Inr (s, map Finite out))"

definition init ::
  "string \<Rightarrow> nat \<Rightarrow> real list option \<Rightarrow> nat option \<Rightarrow> bool \<Rightarrow> py_error + firfilter" where
  "init name b h part nflag =
     (case parse_method name of
        None \<Rightarrow> Inl AssertionError
      | Some m \<Rightarrow>
          (let s = generate_ref
                \<lparr>method_kind = m, B = b, NFFT = None, flagIRchanged = True, stored_h = h,
                 ref = None, left_overs = replicate b 0, len_y_left = 0,
                 partition_sz = part, normalize_flag = nflag, H = [], H_upols = [],
                 OLS_input_buffer = [], input_buffer = [], P = 0, nm = [], FDL = []\<rparr>
           in case (m, part, h) of
                (Upols, None, Some hv) \<Rightarrow>
                  ebind (optimize_UPOLS_parameters (length hv) b)
                    (\<lambda>(L, K). Inr (s\<lparr>partition_sz := Some L, NFFT := Some (int K)\<rparr>))
              | _ \<Rightarrow> Inr s))"

subsection \<open>The shared multiply step\<close>

text \<open>
  \<open>fft(x, self.NFFT)\<close> with \<open>NFFT = None\<close> transforms \<open>x\<close> at its own length. A missing
  impulse response cannot be transformed (numpy's \<open>AxisError\<close>, a \<open>ValueError\<close>).
\<close>

definition fft_conv :: "firfilter \<Rightarrow> real list \<Rightarrow> (firfilter \<times> real list) result" where
  "fft_conv s x =
     (let n = (case NFFT s of None \<Rightarrow> int (length x) | Some k \<Rightarrow> k) in
      ebind (raise_in s (np_fft x n)) (\<lambda>X.
      ebind (if flagIRchanged s
             then (case stored_h s of
                     None \<Rightarrow> Inl (ValueError, s)
                   | Some h \<Rightarrow>
                       ebind (raise_in s (np_fft h n))
                         (\<lambda>Hn. Inr (s\<lparr>H := Hn, flagIRchanged := False\<rparr>)))
             else Inr s) (\<lambda>s1.
      ebind (raise_in s1 (np_binop (*) X (H s1))) (\<lambda>XH.
      ebind (raise_in s1 (np_ifft_real XH)) (\<lambda>y. Inr (s1, y))))))"

subsection \<open>Overlap-add\<close>

text \<open>
  First call: \<open>NFFT = B + max(h.shape) - 1\<close>, a zero carry buffer of that length and
  \<open>len_y_left = NFFT - B\<close>. Without an impulse response \<open>h.shape\<close> is an \<open>AttributeError\<close>.
  \<open>NFFT\<close> and \<open>len_y_left\<close> are Python integers: for an empty impulse response \<open>NFFT\<close> is
  \<open>B - 1\<close> and \<open>len_y_left\<close> is \<open>-1\<close>. With \<open>NFFT = -1\<close> the call \<open>np.zeros((NFFT, N_ch))\<close> is
  a \<open>ValueError\<close>, raised after \<open>NFFT\<close> has been assigned.
\<close>

definition OLA_setup :: "firfilter \<Rightarrow> real list option \<Rightarrow> firfilter result" where
  "OLA_setup s h =
     (case h of
        None \<Rightarrow> Inl (AttributeError, s)
      | Some hv \<Rightarrow>
          (let n = int (B s) + int (length hv) - 1;
               s1 = s\<lparr>NFFT := Some n\<rparr>
           in if n < 0 then Inl (ValueError, s1)
              else Inr (s1\<lparr>left_overs := replicate (nat n) 0, len_y_left := n - int (B s)\<rparr>)))"

text \<open>
  \<open>np.squeeze(np.zeros((NFFT, N_ch)))\<close> with \<open>NFFT = 1\<close> and one channel is a 0-dimensional
  array, and \<open>self.left_overs[:self.B, ...]\<close> on it is an \<open>IndexError\<close>. The buffer is
  0-dimensional exactly when \<open>NFFT = 1\<close>, since only the first call creates it; the state
  keeps it as the one-entry list \<open>[0]\<close>.
\<close>

definition OLA ::
  "firfilter \<Rightarrow> real list \<Rightarrow> real list option \<Rightarrow> (firfilter \<times> sample list) result" where
  "OLA s x h =
     ebind (case NFFT s of None \<Rightarrow> OLA_setup s h | Some n \<Rightarrow> Inr s) (\<lambda>s1.
     ebind (fft_conv s1 x) (\<lambda>(s2, y).
     if NFFT s2 = Some 1 then Inl (IndexError, s2)
     else
     ebind (raise_in s2 (np_binop (+) (take (B s2) y) (take (B s2) (left_overs s2)))) (\<lambda>out.
     let rolled = rotate (B s2) (left_overs s2);
         s3 = s2\<lparr>left_overs := rolled\<rparr>;
         m = length (py_last (B s3) rolled);
         flushed = take (length rolled - m) rolled @ replicate m 0;
         s4 = s3\<lparr>left_overs := flushed\<rparr>
     in
     ebind (raise_in s4 (np_binop (+) (py_take (len_y_left s4) flushed) (drop (B s4) y))) (\<lambda>added.
     ebind (raise_in s4 (set_first (len_y_left s4) flushed added)) (\<lambda>carried.
     emit (s4\<lparr>left_overs := carried\<rparr>) out)))))"

subsection \<open>Overlap-save\<close>

text \<open>
  \<open>np.zeros(shape=(NFFT,))\<close> with \<open>NFFT = -1\<close> (no samples at all) is a \<open>ValueError\<close>, raised
  after \<open>NFFT\<close> has been assigned.
\<close>

definition OLS_setup :: "firfilter \<Rightarrow> real list option \<Rightarrow> firfilter result" where
  "OLS_setup s h =
     (case h of
        None \<Rightarrow> Inl (AttributeError, s)
      | Some hv \<Rightarrow>
          (let n = int (B s) + int (length hv) - 1;
               s1 = s\<lparr>NFFT := Some n\<rparr>
           in if n < 0 then Inl (ValueError, s1)
              else Inr (s1\<lparr>OLS_input_buffer := replicate (nat n) 0\<rparr>)))"

definition OLS ::
  "firfilter \<Rightarrow> real list \<Rightarrow> real list option \<Rightarrow> (firfilter \<times> sample list) result" where
  "OLS s x h =
     ebind (case NFFT s of None \<Rightarrow> OLS_setup s h | Some n \<Rightarrow> Inr s) (\<lambda>s1.
     let s2 = s1\<lparr>OLS_input_buffer := rotate (B s1) (OLS_input_buffer s1)\<rparr> in
     ebind (raise_in s2 (set_last (B s2) (OLS_input_buffer s2) x)) (\<lambda>buf.
     let s3 = s2\<lparr>OLS_input_buffer := buf\<rparr> in
     ebind (fft_conv s3 buf) (\<lambda>(s4, out).
     emit s4 (py_last (B s4) out))))"

subsection \<open>Uniformly partitioned overlap-save\<close>

text \<open>
  \<open>pad_the_end\<close> and \<open>pad_beginning\<close>. In \<open>UPOLS\<close> the slice \<open>h[ii:ii + L_partit]\<close> never
  raises (a slice past the end is just shorter), so the \<open>except\<close> branch with
  \<open>pad_the_end\<close> is never taken; the transform \<open>fft(h_pad, n=NFFT)\<close> pads the row instead.
\<close>

definition pad_the_end :: "real list \<Rightarrow> nat \<Rightarrow> real list" where
  "pad_the_end x new_length =
     (if length x < new_length then x @ replicate (new_length - length x) 0 else x)"

definition pad_beginning :: "real list \<Rightarrow> nat \<Rightarrow> real list" where
  "pad_beginning x padding = replicate padding 0 @ x"

definition h_partit :: "real list \<Rightarrow> nat \<Rightarrow> nat \<Rightarrow> real list" where
  "h_partit h L m = take L (drop (m * L) h)"

definition h_pad :: "real list \<Rightarrow> nat \<Rightarrow> nat \<Rightarrow> nat \<Rightarrow> real list" where
  "h_pad h L b m = pad_beginning (h_partit h L m) ((m * L) mod b)"

text \<open>
  The transform size for a given partition length: \<open>dmax = B - gcd(L_partit, B)\<close> and
  \<open>NFFT = B + L_partit + dmax\<close>. With \<open>B = 0\<close>, \<open>dmax\<close> is \<open>-L_partit\<close> and \<open>NFFT = 0\<close>.
\<close>

definition partition_NFFT :: "nat \<Rightarrow> nat \<Rightarrow> nat" where
  "partition_NFFT b L = (if b = 0 then 0 else b + L + (b - gcd L b))"

text \<open>
  The set-up block of \<open>UPOLS\<close>, run while \<open>flagIRchanged\<close> is set.
  \<^item> \<open>Nh / L_partit\<close> with a partition of 0 is a \<open>ZeroDivisionError\<close>.
  \<^item> The loop runs \<open>P\<close> times (\<open>range(0, Nh, L_partit)\<close>); a transform of size 0 raises in
    its first round.
  \<^item> \<open>max(self.nm)\<close> of an empty \<open>nm\<close> (an empty impulse response) is a \<open>ValueError\<close>.
\<close>

definition UPOLS_setup :: "firfilter \<Rightarrow> real list option \<Rightarrow> firfilter result" where
  "UPOLS_setup s h =
     (case h of
        None \<Rightarrow> Inl (AttributeError, s)
      | Some hv \<Rightarrow>
          ebind (case partition_sz s of
                   None \<Rightarrow>
                     ebind (raise_in s (optimize_UPOLS_parameters (length hv) (B s)))
                       (\<lambda>(L, K). Inr (s\<lparr>partition_sz := Some L, NFFT := Some (int K)\<rparr>, L, K))
                 | Some L \<Rightarrow>
                     Inr (s\<lparr>NFFT := Some (int (partition_NFFT (B s) L))\<rparr>, L,
                          partition_NFFT (B s) L)) (\<lambda>(s1, L, n).
          if L = 0 then Inl (ZeroDivisionError, s1)
          else
            (let p = (length hv + L - 1) div L;
                 s2 = s1\<lparr>P := p, input_buffer := replicate n 0, nm := replicate p 0,
                         H_upols := replicate p (replicate n 0)\<rparr>
             in
             ebind (raise_in s2 (collect (map (\<lambda>m. np_fft (h_pad hv L (B s2) m) (int n)) [0..<p])))
               (\<lambda>rows.
             let s3 = s2\<lparr>H_upols := rows, nm := map (\<lambda>m. (m * L) div B s2) [0..<p]\<rparr>
             in
             if nm s3 = [] then Inl (ValueError, s3)
             else Inr (s3\<lparr>FDL := replicate (Max (set (nm s3)) + 1) (replicate n 0),
                           flagIRchanged := False\<rparr>)))))"

definition UPOLS ::
  "firfilter \<Rightarrow> real list \<Rightarrow> real list option \<Rightarrow> (firfilter \<times> sample list) result" where
  "UPOLS s x h =
     ebind (if flagIRchanged s then UPOLS_setup s h else Inr s) (\<lambda>s1.
     let s2 = s1\<lparr>input_buffer := rotate (B s1) (input_buffer s1)\<rparr> in
     ebind (raise_in s2 (set_last (B s2) (input_buffer s2) x)) (\<lambda>buf.
     let s3 = s2\<lparr>input_buffer := buf\<rparr>;
         s4 = s3\<lparr>FDL := roll_rows (FDL s3)\<rparr>
     in
     ebind (raise_in s4 (np_fft buf (int (length buf)))) (\<lambda>row.
     let s5 = s4\<lparr>FDL := (FDL s4)[0 := row]\<rparr>;
         prod = map2 (map2 (*)) (map (\<lambda>i. FDL s5 ! i) (nm s5)) (H_upols s5)
     in
     ebind (raise_in s5 (np_ifft_real (sum_axis0 prod))) (\<lambda>out.
     emit s5 (py_last (B s5) out)))))"

subsection \<open>process\<close>

text \<open>
  \<open>np.any(h != self.stored_h)\<close>. Against \<open>None\<close> every entry differs. Arrays of one length
  are compared entry by entry, a one-entry array is broadcast against the other, and
  arrays of other unequal lengths compare as different.
\<close>

definition np_any_ne :: "real list \<Rightarrow> real list option \<Rightarrow> bool" where
  "np_any_ne h stored =
     (case stored of
        None \<Rightarrow> h \<noteq> []
      | Some g \<Rightarrow>
          if length h = length g then h \<noteq> g
          else if length h = 1 then list_ex (\<lambda>v. hd h \<noteq> v) g
          else if length g = 1 then list_ex (\<lambda>v. v \<noteq> hd g) h
          else True)"

definition update_ir :: "firfilter \<Rightarrow> real list option \<Rightarrow> firfilter" where
  "update_ir s h =
     (case h of
        None \<Rightarrow> s
      | Some hv \<Rightarrow>
          if np_any_ne hv (stored_h s)
          then generate_ref (s\<lparr>flagIRchanged := True, stored_h := Some hv\<rparr>)
          else s)"

definition process ::
  "firfilter \<Rightarrow> real list \<Rightarrow> real list option \<Rightarrow> (firfilter \<times> sample list) result" where
  "process s x h =
     (let s1 = update_ir s h;
          h1 = stored_h s1
      in case method_kind s1 of
           OverlapSave \<Rightarrow> OLS s1 x h1
         | OverlapAdd \<Rightarrow> OLA s1 x h1
         | Upols \<Rightarrow> UPOLS s1 x h1)"

subsection \<open>Auxiliary notions for the proofs\<close>

text \<open>
  The invariant of the parameter search: a bound optimum is a candidate partition length
  together with a transform size that is at least the minimal one for it.
\<close>

definition acc_ok :: "nat \<Rightarrow> nat \<Rightarrow> opt_acc \<Rightarrow> bool" where
  "acc_ok b N acc =
     (case acc of
        None \<Rightarrow> True
      | Some (c, L, K) \<Rightarrow> L \<in> set (rang N) \<and> K_min_of b L \<le> K)"

text \<open>
  Circular convolution of two real arrays of one length: what the inverse transform of
  the product of two transforms computes.
\<close>

definition cconv_coeff :: "real list \<Rightarrow> real list \<Rightarrow> nat \<Rightarrow> real" where
  "cconv_coeff a b n =
     sum_list (map (\<lambda>p. a ! p * b ! ((n + length a - p) mod length a)) [0..<length a])"

definition cconv :: "real list \<Rightarrow> real list \<Rightarrow> real list" where
  "cconv a b = map (cconv_coeff a b) [0..<length a]"

text \<open>
  The state the set-up block of \<open>UPOLS\<close> builds for an impulse response \<open>hv\<close>, a
  partition length \<open>L\<close> and a transform size \<open>n\<close>.
\<close>

definition upols_built :: "firfilter \<Rightarrow> real list \<Rightarrow> nat \<Rightarrow> nat \<Rightarrow> firfilter" where
  "upols_built s hv L n =
     (let p = (length hv + L - 1) div L;
          slots = map (\<lambda>m. (m * L) div B s) [0..<p]
      in s\<lparr>P := p, input_buffer := replicate n 0,
            H_upols := map (\<lambda>m. rdft (resize n (h_pad hv L (B s) m))) [0..<p],
            nm := slots,
            FDL := replicate (Max (set slots) + 1) (replicate n 0),
            flagIRchanged := False\<rparr>)"

text \<open>The sums of the columns of a matrix of real rows with \<open>n\<close> entries each.\<close>

definition sum_rows :: "nat \<Rightarrow> real list list \<Rightarrow> real list" where
  "sum_rows n rows = map (\<lambda>j. sum_list (map (\<lambda>r. r ! j) rows)) [0..<n]"

text \<open>
  Well-formed engine states: what the constructor establishes and every call that
  returns a block preserves. The block size is positive, an impulse response that is
  stored is not empty and \<open>ref\<close> belongs to it, the transform \<open>H\<close> belongs to the stored
  impulse response unless \<open>flagIRchanged\<close> is set, and the buffers of the engine's
  algorithm fit the transform size.
\<close>

definition fresh_H :: "firfilter \<Rightarrow> nat \<Rightarrow> bool" where
  "fresh_H s n =
     (flagIRchanged s \<or> (\<exists>hv. stored_h s = Some hv \<and> H s = rdft (resize n hv)))"

definition ola_ok :: "firfilter \<Rightarrow> bool" where
  "ola_ok s =
     (case NFFT s of
        None \<Rightarrow> flagIRchanged s
      | Some k \<Rightarrow> 2 \<le> k \<and> int (length (left_overs s)) = k
                  \<and> len_y_left s = k - int (B s) \<and> int (B s) \<le> k \<and> fresh_H s (nat k))"

definition ols_ok :: "firfilter \<Rightarrow> bool" where
  "ols_ok s =
     (case NFFT s of
        None \<Rightarrow> flagIRchanged s
      | Some k \<Rightarrow> int (length (OLS_input_buffer s)) = k \<and> int (B s) \<le> k
                  \<and> fresh_H s (nat k))"

definition upols_ready :: "firfilter \<Rightarrow> nat \<Rightarrow> bool" where
  "upols_ready s n =
     (NFFT s = Some (int n) \<and> length (input_buffer s) = n \<and> B s \<le> n
      \<and> FDL s \<noteq> [] \<and> H_upols s \<noteq> [] \<and> nm s \<noteq> []
      \<and> list_all (\<lambda>row. length row = n) (H_upols s)
      \<and> list_all (\<lambda>row. length row = n) (FDL s)
      \<and> list_all (\<lambda>i. i < length (FDL s)) (nm s))"

definition upols_ok :: "firfilter \<Rightarrow> bool" where
  "upols_ok s = (flagIRchanged s \<or> (\<exists>n. upols_ready s n))"

definition engine_ok :: "firfilter \<Rightarrow> bool" where
  "engine_ok s =
     (0 < B s
      \<and> (case stored_h s of
            None \<Rightarrow> flagIRchanged s \<and> (method_kind s \<noteq> Upols \<longrightarrow> NFFT s = None)
          | Some hv \<Rightarrow> hv \<noteq> [] \<and> ref s = Some (sum_list (map abs hv)))
      \<and> (case method_kind s of
            OverlapAdd \<Rightarrow> ola_ok s
          | OverlapSave \<Rightarrow> ols_ok s
          | Upols \<Rightarrow> upols_ok s))"

text \<open>
  The buffer a call of OLA or OLS starts from: the stored one, or the zero buffer that the
  first call itself creates.
\<close>

definition carry_before :: "firfilter \<Rightarrow> nat \<Rightarrow> real list" where
  "carry_before s n = (case NFFT s of None \<Rightarrow> replicate n 0 | Some k \<Rightarrow> left_overs s)"

definition ols_before :: "firfilter \<Rightarrow> nat \<Rightarrow> real list" where
  "ols_before s n = (case NFFT s of None \<Rightarrow> replicate n 0 | Some k \<Rightarrow> OLS_input_buffer s)"

text \<open>
  Closed forms of one call, proved equal to the algorithms below. \<open>run_n\<close> is the
  transform size in force after the lazy set-up of OLA and OLS.
\<close>

definition run_n :: "firfilter \<Rightarrow> real list \<Rightarrow> nat" where
  "run_n s hv = (case NFFT s of None \<Rightarrow> B s + length hv - 1 | Some k \<Rightarrow> nat k)"

definition ola_y :: "firfilter \<Rightarrow> real list \<Rightarrow> real list \<Rightarrow> real list" where
  "ola_y s hv x = cconv (resize (run_n s hv) x) (resize (run_n s hv) hv)"

definition ola_after :: "firfilter \<Rightarrow> real list \<Rightarrow> real list \<Rightarrow> firfilter" where
  "ola_after s hv x =
     s\<lparr>NFFT := Some (int (run_n s hv)),
       len_y_left := int (run_n s hv) - int (B s),
       H := rdft (resize (run_n s hv) hv),
       flagIRchanged := False,
       left_overs := map2 (+) (drop (B s) (carry_before s (run_n s hv)))
                              (drop (B s) (ola_y s hv x)) @ replicate (B s) 0\<rparr>"

definition ola_block :: "firfilter \<Rightarrow> real list \<Rightarrow> real list \<Rightarrow> real list" where
  "ola_block s hv x =
     map2 (+) (take (B s) (ola_y s hv x)) (take (B s) (carry_before s (run_n s hv)))"

definition ols_after :: "firfilter \<Rightarrow> real list \<Rightarrow> real list \<Rightarrow> firfilter" where
  "ols_after s hv w =
     s\<lparr>NFFT := Some (int (run_n s hv)),
       OLS_input_buffer := drop (B s) (ols_before s (run_n s hv)) @ w,
       H := rdft (resize (run_n s hv) hv),
       flagIRchanged := False\<rparr>"

definition ols_block :: "firfilter \<Rightarrow> real list \<Rightarrow> real list \<Rightarrow> real list" where
  "ols_block s hv w =
     py_last (B s) (cconv (drop (B s) (ols_before s (run_n s hv)) @ w)
                          (resize (run_n s hv) hv))"

definition upols_after :: "firfilter \<Rightarrow> real list \<Rightarrow> firfilter" where
  "upols_after s w =
     s\<lparr>input_buffer := drop (B s) (input_buffer s) @ w,
       FDL := rdft (drop (B s) (input_buffer s) @ w) # butlast (FDL s)\<rparr>"

definition upols_block :: "firfilter \<Rightarrow> real list \<Rightarrow> real list" where
  "upols_block s w =
     py_last (B s) (map Re (idft (sum_axis0
        (map2 (map2 (*)) (map (\<lambda>i. FDL (upols_after s w) ! i) (nm s)) (H_upols s)))))"

text \<open>What \<open>emit\<close> returns for a state whose \<open>ref\<close> is set.\<close>

definition emitted :: "firfilter \<Rightarrow> real list \<Rightarrow> sample list" where
  "emitted s out =
     (if normalize_flag s
      then map (\<lambda>v. float_div v (case ref s of None \<Rightarrow> 0 | Some r \<Rightarrow> r)) out
      else map Finite out)"

text \<open>
  The stored transform is the transform of the stored impulse response at the stored
  transform size: the vector \<open>H\<close> under OLA and OLS, the rows of the partitions under UPOLS.
\<close>

definition H_of_stored :: "firfilter \<Rightarrow> bool" where
  "H_of_stored s =
     (case (stored_h s, NFFT s) of
        (Some hv, Some k) \<Rightarrow>
          (case method_kind s of
             Upols \<Rightarrow>
               (case partition_sz s of
                  None \<Rightarrow> False
                | Some L \<Rightarrow>
                    H_upols s = map (\<lambda>m. rdft (resize (nat k) (h_pad hv L (B s) m)))
                                    [0..<(length hv + L - 1) div L])
           | _ \<Rightarrow> H s = rdft (resize (nat k) hv))
      | _ \<Rightarrow> False)"

text \<open>Example engines: the states the constructor returns for small arguments.\<close>

definition ola_demo :: firfilter where
  "ola_demo =
     \<lparr>method_kind = OverlapAdd, B = 2, NFFT = None, flagIRchanged = True,
      stored_h = Some [1, 1], ref = Some 2, left_overs = [0, 0], len_y_left = 0,
      partition_sz = None, normalize_flag = False, H = [], H_upols = [],
      OLS_input_buffer = [], input_buffer = [], P = 0, nm = [], FDL = []\<rparr>"

definition ols_demo :: firfilter where
  "ols_demo =
     \<lparr>method_kind = OverlapSave, B = 2, NFFT = None, flagIRchanged = True,
      stored_h = Some [1, 1], ref = Some 2, left_overs = [0, 0], len_y_left = 0,
      partition_sz = None, normalize_flag = False, H = [], H_upols = [],
      OLS_input_buffer = [], input_buffer = [], P = 0, nm = [], FDL = []\<rparr>"

definition upols_demo :: firfilter where
  "upols_demo =
     \<lparr>method_kind = Upols, B = 2, NFFT = None, flagIRchanged = True,
      stored_h = Some [1, 1], ref = Some 2, left_overs = [0, 0], len_y_left = 0,
      partition_sz = Some 2, normalize_flag = False, H = [], H_upols = [],
      OLS_input_buffer = [], input_buffer = [], P = 0, nm = [], FDL = []\<rparr>"

text \<open>The example engines after the block \<open>[1, 2]\<close>.\<close>

definition ola_demo1 :: firfilter where
  "ola_demo1 =
     ola_demo\<lparr>NFFT := Some 3, len_y_left := 1, H := rdft [1, 1, 0],
               flagIRchanged := False, left_overs := [2, 0, 0]\<rparr>"

definition upols_demo1 :: firfilter where
  "upols_demo1 =
     upols_demo\<lparr>NFFT := Some 4, P := 1, input_buffer := [0, 0, 1, 2],
                 H_upols := [rdft [1, 1, 0, 0]], nm := [0],
                 FDL := [rdft [0, 0, 1, 2]], flagIRchanged := False\<rparr>"

text \<open>
  An OLS engine whose stored transform does not belong to its impulse response: \<open>H\<close> is
  the transform of \<open>[3, 0, 0]\<close>, the impulse response is \<open>[1, 1]\<close> and the flag is clear.
\<close>

definition ols_stale :: firfilter where
  "ols_stale =
     ols_demo\<lparr>NFFT := Some 3, OLS_input_buffer := [0, 1, 2], H := rdft [3, 0, 0],
               flagIRchanged := False\<rparr>"

section \<open>The parameter search\<close>

lemma rang_one: "rang (Suc 0) = []"
  by (simp add: rang_def)

lemma K_range_nonempty: "K_range b L \<noteq> []"
  by (simp add: K_range_def Let_def min_def max_def)

lemma K_min_le_K_max: "K_min_of b L \<le> 2 ^ nat \<lceil>log 2 (real (K_min_of b L))\<rceil>"
proof -
  have "real (K_min_of b L) \<le> 2 ^ nat \<lceil>log 2 (real (K_min_of b L))\<rceil>"
    by (rule power_of_nat_log_ge) simp
  then show ?thesis
    by (metis of_nat_le_iff of_nat_numeral of_nat_power)
qed

lemma K_range_lower: "K \<in> set (K_range b L) \<Longrightarrow> K_min_of b L \<le> K"
  using K_min_le_K_max [of b L] by (auto simp: K_range_def Let_def min_def split: if_splits)

lemma K_min_of_lower: "0 < b \<Longrightarrow> b + L - 1 \<le> K_min_of b L"
proof -
  assume "0 < b"
  then have "gcd L b \<le> b" by (simp add: gcd_le2_nat)
  then show ?thesis unfolding K_min_of_def Let_def by linarith
qed

lemma try_K_step_ok:
  "acc_ok b N acc \<Longrightarrow> L \<in> set (rang N) \<Longrightarrow> K_min_of b L \<le> K
     \<Longrightarrow> acc_ok b N (try_K b N L acc K)"
  by (auto simp: try_K_def acc_ok_def Let_def split: option.splits)

lemma try_K_ok:
  "acc_ok b N acc \<Longrightarrow> L \<in> set (rang N) \<Longrightarrow> \<forall>K \<in> set Ks. K_min_of b L \<le> K
     \<Longrightarrow> acc_ok b N (foldl (try_K b N L) acc Ks)"
proof (induction Ks arbitrary: acc)
  case Nil
  then show ?case by simp
next
  case (Cons K Ks)
  have "acc_ok b N (try_K b N L acc K)"
    using Cons.prems by (intro try_K_step_ok) auto
  then show ?case using Cons by simp
qed

lemma try_K_bound:
  "acc \<noteq> None \<or> Ks \<noteq> [] \<Longrightarrow> foldl (try_K b N L) acc Ks \<noteq> None"
proof (induction Ks arbitrary: acc)
  case Nil
  then show ?case by simp
next
  case (Cons K Ks)
  have "try_K b N L acc K \<noteq> None"
    by (auto simp: try_K_def Let_def split: option.splits)
  then show ?case using Cons.IH by simp
qed

lemma try_L_ok:
  "acc_ok b N acc \<Longrightarrow> set Ls \<subseteq> set (rang N) \<Longrightarrow> acc_ok b N (foldl (try_L b N) acc Ls)"
proof (induction Ls arbitrary: acc)
  case Nil
  then show ?case by simp
next
  case (Cons L Ls)
  have "acc_ok b N (try_L b N acc L)"
    unfolding try_L_def using Cons.prems by (intro try_K_ok) (auto dest: K_range_lower)
  then show ?case using Cons by simp
qed

lemma try_L_bound:
  "acc \<noteq> None \<or> Ls \<noteq> [] \<Longrightarrow> foldl (try_L b N) acc Ls \<noteq> None"
proof (induction Ls arbitrary: acc)
  case Nil
  then show ?case by simp
next
  case (Cons L Ls)
  have "try_L b N acc L \<noteq> None"
    unfolding try_L_def by (rule try_K_bound) (simp add: K_range_nonempty)
  then show ?case using Cons.IH by simp
qed

lemma rang_nonempty: "2 \<le> N \<Longrightarrow> rang N \<noteq> []"
proof -
  assume N: "2 \<le> N"
  have "(2::nat) ^ 1 \<le> N" using N by simp
  then have "1 \<le> \<lfloor>log 2 (real N)\<rfloor>"
    using N by (simp add: le_log2_of_power le_floor_iff)
  then show ?thesis by (simp add: rang_def)
qed

lemma rang_member: "0 < N \<Longrightarrow> L \<in> set (rang N) \<Longrightarrow> (\<exists>k. L = 2 ^ k) \<and> L \<le> N"
proof -
  assume N: "0 < N" and L: "L \<in> set (rang N)"
  then obtain k where k: "k < nat \<lfloor>log 2 (real N)\<rfloor>" "L = 2 ^ k"
    by (auto simp: rang_def)
  have "(2::real) ^ nat \<lfloor>log 2 (real N)\<rfloor> \<le> real N"
    using N by (intro power_of_nat_log_le) auto
  moreover have "(2::real) ^ k \<le> 2 ^ nat \<lfloor>log 2 (real N)\<rfloor>"
    using k by (intro power_increasing) auto
  ultimately have "(2::real) ^ k \<le> real N" by linarith
  then have "real ((2::nat) ^ k) \<le> real N" by simp
  then have "(2::nat) ^ k \<le> N" by (simp only: of_nat_le_iff)
  then have "L \<le> N" using k by simp
  then show ?thesis using k by blast
qed

text \<open>
  C5. For an impulse response of at least two samples and a positive block size the search
  returns a partition length \<open>L\<close> and a transform size \<open>K\<close>; \<open>L\<close> is one of the candidates,
  a power of two not above \<open>N\<close>, and \<open>K \<ge> B + L - 1\<close>.
\<close>

theorem optimizer_valid:
  assumes "2 \<le> N" and "0 < b"
  shows "\<exists>L K k. optimize_UPOLS_parameters N b = Inr (L, K) \<and> L \<in> set (rang N)
           \<and> L = 2 ^ k \<and> L \<le> N \<and> b + L - 1 \<le> K"
proof -
  have ne: "rang N \<noteq> []" using assms by (simp add: rang_nonempty)
  then have "foldl (try_L b N) None (rang N) \<noteq> None"
    by (intro try_L_bound) simp
  then obtain c L K where r: "foldl (try_L b N) None (rang N) = Some (c, L, K)"
    by (cases "foldl (try_L b N) None (rang N)") auto
  have "acc_ok b N (foldl (try_L b N) None (rang N))"
    by (intro try_L_ok) (simp_all add: acc_ok_def)
  then have ok: "L \<in> set (rang N)" "K_min_of b L \<le> K"
    by (simp_all add: r acc_ok_def)
  obtain k where k: "L = 2 ^ k" "L \<le> N"
    using rang_member [OF _ ok(1)] assms by auto
  have "b + L - 1 \<le> K" using K_min_of_lower [OF assms(2), of L] ok(2) by linarith
  moreover have "optimize_UPOLS_parameters N b = Inr (L, K)"
    using assms ne by (simp add: optimize_UPOLS_parameters_def r)
  ultimately show ?thesis using ok k by blast
qed

theorem optimizer_valid_witness:
  "(2::nat) \<le> 8 \<and> (0::nat) < 4 \<and>
   (\<exists>L K k. optimize_UPOLS_parameters 8 4 = Inr (L, K) \<and> L \<in> set (rang 8)
      \<and> L = 2 ^ k \<and> L \<le> 8 \<and> 4 + L - 1 \<le> K)"
  using optimizer_valid [of 8 4] by simp

lemma parse_method_simps:
  "parse_method ''UPOLS'' = Some Upols"
  "parse_method ''upols'' = Some Upols"
  "parse_method ''OLA'' = Some OverlapAdd"
  "parse_method ''ola'' = Some OverlapAdd"
  "parse_method ''overlap-add'' = Some OverlapAdd"
  "parse_method ''OLS'' = Some OverlapSave"
  "parse_method ''ols'' = Some OverlapSave"
  "parse_method ''overlap-save'' = Some OverlapSave"
  by (simp_all add: parse_method_def lower_def lower_char_def)

lemma ebind_simps [simp]:
  "ebind (Inr v) f = f v"
  "ebind (Inl e) f = Inl e"
  by (simp_all add: ebind_def)

lemma raise_in_simps [simp]:
  "raise_in s (Inr v) = Inr v"
  "raise_in s (Inl e) = Inl (e, s)"
  by (simp_all add: raise_in_def)

text \<open>
  C9. With an impulse response of one sample the candidate list is empty for every block
  size, the search ends in the unbound-variable error, and so does the construction of a
  UPOLS engine from such an impulse response without a partition size.
\<close>

theorem optimizer_unbound_for_one_sample:
  "rang 1 = [] \<and> optimize_UPOLS_parameters 1 b = Inl UnboundLocalError
   \<and> (parse_method name = Some Upols
        \<longrightarrow> init name b (Some [v]) None nflag = Inl UnboundLocalError)"
  by (simp add: optimize_UPOLS_parameters_def rang_one init_def)

theorem optimizer_unbound_for_one_sample_witness:
  "parse_method ''UPOLS'' = Some Upols
   \<and> init ''UPOLS'' 512 (Some [1]) None True = Inl UnboundLocalError"
  using optimizer_unbound_for_one_sample [of 512 "''UPOLS''" 1 True]
  by (simp add: parse_method_simps)

section \<open>The convolution theorem\<close>

lemma cis_eq_1_imp:
  assumes "cis x = 1" shows "\<exists>j::int. x = of_int j * 2 * pi"
proof -
  from assms have "cos x = 1" by (simp add: complex_eq_iff)
  then show ?thesis by (simp add: cos_one_2pi_int)
qed

lemma root_sum:
  fixes m :: int and N :: nat
  assumes N: "0 < N"
  shows "(\<Sum>k<N. cis (2 * pi * real k * of_int m / real N)) = (if int N dvd m then of_nat N else 0)"
proof -
  define z where "z = cis (2 * pi * of_int m / real N)"
  have pw: "cis (2 * pi * real k * of_int m / real N) = z ^ k" for k
    unfolding z_def by (simp add: DeMoivre algebra_simps)
  have zN: "z ^ N = 1"
  proof -
    have "z ^ N = cis (2 * pi * of_int m)"
      unfolding z_def using N by (simp add: DeMoivre)
    then show ?thesis by (simp add: cis_multiple_2pi)
  qed
  show ?thesis
  proof (cases "int N dvd m")
    case True
    then obtain j where j: "m = int N * j" by (auto simp: dvd_def)
    have "2 * pi * of_int m / real N = 2 * pi * of_int j"
      using N by (simp add: j)
    then have "z = cis (2 * pi * of_int j)"
      unfolding z_def by simp
    also have "\<dots> = 1" by (rule cis_multiple_2pi) simp
    finally have "z = 1" .
    then show ?thesis using True by (simp add: pw)
  next
    case False
    have "z \<noteq> 1"
    proof
      assume "z = 1"
      then obtain j :: int where "2 * pi * of_int m / real N = of_int j * 2 * pi"
        unfolding z_def using cis_eq_1_imp by blast
      then have "real_of_int m = of_int j * real N"
        using N by (simp add: field_simps)
      then have "real_of_int m = real_of_int (j * int N)" by simp
      then have "m = j * int N" using of_int_eq_iff by blast
      then show False using False by simp
    qed
    then have "(\<Sum>k<N. z ^ k) = 0"
      by (simp add: geometric_sum zN)
    then show ?thesis using False by (simp add: pw)
  qed
qed


lemma length_dft [simp]: "length (dft a) = length a"
  by (simp add: dft_def)

lemma length_idft [simp]: "length (idft a) = length a"
  by (simp add: idft_def)

lemma dft_nth: "k < length a \<Longrightarrow> dft a ! k = dft_coeff a k"
  by (simp add: dft_def)

lemma dvd_shift:
  fixes n p q N :: nat
  assumes "n < N" "p < N" "q < N"
  shows "int N dvd (int n - int p - int q) \<longleftrightarrow> q = (n + N - p) mod N"
proof (cases "p \<le> n")
  case True
  then have m: "(n + N - p) mod N = n - p" using assms by (simp add: mod_if)
  show ?thesis
  proof
    assume d: "int N dvd (int n - int p - int q)"
    have "\<bar>int n - int p - int q\<bar> < int N" using assms True by linarith
    with d have "int n - int p - int q = 0"
      using zdvd_not_zless[of "\<bar>int n - int p - int q\<bar>" "int N"] by (cases "int n - int p - int q = 0") auto
    then show "q = (n + N - p) mod N" using m True by linarith
  next
    assume "q = (n + N - p) mod N"
    then have "int n - int p - int q = 0" using m True by simp
    then show "int N dvd (int n - int p - int q)" by simp
  qed
next
  case False
  then have m: "(n + N - p) mod N = n + N - p" using assms by (simp add: mod_if)
  show ?thesis
  proof
    assume d: "int N dvd (int n - int p - int q)"
    then have d': "int N dvd (int n - int p - int q + int N)" by simp
    have "\<bar>int n - int p - int q + int N\<bar> < int N" using assms False by linarith
    with d' have "int n - int p - int q + int N = 0"
      using zdvd_not_zless[of "\<bar>int n - int p - int q + int N\<bar>" "int N"]
      by (cases "int n - int p - int q + int N = 0") auto
    then show "q = (n + N - p) mod N" using m False assms by linarith
  next
    assume "q = (n + N - p) mod N"
    then have "int n - int p - int q = - int N" using m False assms by simp
    then show "int N dvd (int n - int p - int q)" by simp
  qed
qed

lemma conv_coeff:
  fixes a b :: "complex list"
  assumes la: "length a = N" and lb: "length b = N" and n: "n < N"
  shows "idft_coeff (map2 (*) (dft a) (dft b)) n = (\<Sum>p<N. a ! p * b ! ((n + N - p) mod N))"
proof -
  have N: "0 < N" using n by simp
  let ?Y = "map2 (*) (dft a) (dft b)"
  have lY: "length ?Y = N" using la lb by simp
  have tm: "?Y ! k * cis (2 * pi * real k * real n / real N)
      = (\<Sum>p<N. \<Sum>q<N. a ! p * b ! q * cis (2 * pi * real k * of_int (int n - int p - int q) / real N))"
    if k: "k < N" for k
  proof -
    have "?Y ! k = dft_coeff a k * dft_coeff b k"
      using k la lb by (simp add: dft_nth)
    also have "\<dots> = (\<Sum>p<N. \<Sum>q<N. (a ! p * cis (- (2 * pi * real k * real p / real N)))
                 * (b ! q * cis (- (2 * pi * real k * real q / real N))))"
      by (simp add: dft_coeff_def la lb sum_product)
    finally have "?Y ! k * cis (2 * pi * real k * real n / real N)
       = (\<Sum>p<N. \<Sum>q<N. (a ! p * cis (- (2 * pi * real k * real p / real N)))
                 * (b ! q * cis (- (2 * pi * real k * real q / real N)))
                 * cis (2 * pi * real k * real n / real N))"
      by (simp add: sum_distrib_right)
    also have "\<dots> = (\<Sum>p<N. \<Sum>q<N. a ! p * b ! q * cis (2 * pi * real k * of_int (int n - int p - int q) / real N))"
    proof (intro sum.cong refl)
      fix p q
      have "cis (- (2 * pi * real k * real p / real N)) * cis (- (2 * pi * real k * real q / real N))
             * cis (2 * pi * real k * real n / real N)
           = cis (2 * pi * real k * of_int (int n - int p - int q) / real N)"
        by (simp add: cis_mult algebra_simps diff_divide_distrib add_divide_distrib)
      then show "(a ! p * cis (- (2 * pi * real k * real p / real N)))
                 * (b ! q * cis (- (2 * pi * real k * real q / real N)))
                 * cis (2 * pi * real k * real n / real N)
            = a ! p * b ! q * cis (2 * pi * real k * of_int (int n - int p - int q) / real N)"
        by (simp add: mult_ac)
    qed
    finally show ?thesis .
  qed
  have "(\<Sum>k<N. ?Y ! k * cis (2 * pi * real k * real n / real N))
      = (\<Sum>k<N. \<Sum>p<N. \<Sum>q<N. a ! p * b ! q * cis (2 * pi * real k * of_int (int n - int p - int q) / real N))"
    by (intro sum.cong refl) (simp add: tm)
  also have "\<dots> = (\<Sum>p<N. \<Sum>k<N. \<Sum>q<N. a ! p * b ! q * cis (2 * pi * real k * of_int (int n - int p - int q) / real N))"
    by (rule sum.swap)
  also have "\<dots> = (\<Sum>p<N. \<Sum>q<N. \<Sum>k<N. a ! p * b ! q * cis (2 * pi * real k * of_int (int n - int p - int q) / real N))"
    by (rule sum.cong [OF refl]) (rule sum.swap)
  also have "\<dots> = (\<Sum>p<N. \<Sum>q<N. a ! p * b ! q * (if int N dvd (int n - int p - int q) then of_nat N else 0))"
    by (intro sum.cong refl) (simp only: sum_distrib_left [symmetric] root_sum [OF N])
  also have "\<dots> = (\<Sum>p<N. \<Sum>q<N. (if q = (n + N - p) mod N then a ! p * b ! q * of_nat N else 0))"
    by (intro sum.cong refl) (simp add: dvd_shift n)
  also have "\<dots> = (\<Sum>p<N. a ! p * b ! ((n + N - p) mod N) * of_nat N)"
    using N by (intro sum.cong refl) (simp add: sum.delta)
  finally have "(\<Sum>k<N. ?Y ! k * cis (2 * pi * real k * real n / real N))
      = (\<Sum>p<N. a ! p * b ! ((n + N - p) mod N)) * of_nat N"
    by (simp add: sum_distrib_right)
  then show ?thesis
    using N by (simp add: idft_coeff_def lY del: length_map length_zip)
qed

lemma length_rdft [simp]: "length (rdft a) = length a"
  by (simp add: rdft_def)

lemma length_resize [simp]: "length (resize n a) = n"
  by (simp add: resize_def)

lemma length_cconv [simp]: "length (cconv a b) = length a"
  by (simp add: cconv_def)

lemma resize_id [simp]: "length a = n \<Longrightarrow> resize n a = a"
  by (simp add: resize_def)

lemma Re_sum_list: "Re (sum_list xs) = sum_list (map Re xs)"
  by (induction xs) auto

lemma rdft_mult_idft:
  assumes "length a = length b"
  shows "map Re (idft (map2 (*) (rdft a) (rdft b))) = cconv a b"
proof (rule nth_equalityI)
  show "length (map Re (idft (map2 (*) (rdft a) (rdft b)))) = length (cconv a b)"
    using assms by simp
next
  fix n assume "n < length (map Re (idft (map2 (*) (rdft a) (rdft b))))"
  then have n: "n < length a" using assms by simp
  have "idft (map2 (*) (rdft a) (rdft b)) ! n = idft_coeff (map2 (*) (rdft a) (rdft b)) n"
    using n assms by (simp add: idft_def)
  also have "\<dots> = (\<Sum>p<length a. map complex_of_real a ! p
                  * map complex_of_real b ! ((n + length a - p) mod length a))"
    unfolding rdft_def using n assms by (intro conv_coeff) simp_all
  also have "\<dots> = (\<Sum>p<length a. complex_of_real (a ! p * b ! ((n + length a - p) mod length a)))"
  proof (intro sum.cong refl)
    fix p assume "p \<in> {..<length a}"
    then have p: "p < length a" by simp
    have "0 < length a" using n by (cases a) simp_all
    then have "(n + length a - p) mod length a < length a"
      by (rule mod_less_divisor)
    then have "(n + length a - p) mod length a < length b"
      using assms by simp
    then show "map complex_of_real a ! p * map complex_of_real b ! ((n + length a - p) mod length a)
        = complex_of_real (a ! p * b ! ((n + length a - p) mod length a))"
      using p by simp
  qed
  also have "\<dots> = complex_of_real (cconv_coeff a b n)"
    by (simp add: cconv_coeff_def interv_sum_list_conv_sum_set_nat atLeast0LessThan)
  finally show "map Re (idft (map2 (*) (rdft a) (rdft b))) ! n = cconv a b ! n"
    using n assms by (simp add: cconv_def)
qed

lemma np_fft_pos [simp]: "0 < n \<Longrightarrow> np_fft a n = Inr (rdft (resize n a))"
  by (simp add: np_fft_def)

lemma np_fft_zero [simp]: "np_fft a 0 = Inl ValueError"
  by (simp add: np_fft_def)

lemma np_binop_same [simp]: "length a = length b \<Longrightarrow> np_binop f a b = Inr (map2 f a b)"
  by (simp add: np_binop_def)

lemma np_ifft_real_pos [simp]: "0 < length Y \<Longrightarrow> np_ifft_real Y = Inr (map Re (idft Y))"
  by (simp add: np_ifft_real_def)

text \<open>The multiply step on a state whose transform size is set.\<close>

lemma fft_conv_ok:
  assumes "NFFT s = Some (int n)" and "0 < n" and "stored_h s = Some hv"
    and "flagIRchanged s \<or> H s = rdft (resize n hv)"
  shows "fft_conv s x = Inr (s\<lparr>H := rdft (resize n hv), flagIRchanged := False\<rparr>,
                            cconv (resize n x) (resize n hv))"
proof (cases "flagIRchanged s")
  case True
  then show ?thesis using assms
    by (simp add: fft_conv_def rdft_mult_idft)
next
  case False
  then have "s\<lparr>H := rdft (resize n hv), flagIRchanged := False\<rparr> = s"
    using assms by simp
  then show ?thesis using assms False
    by (simp add: fft_conv_def rdft_mult_idft)
qed

section \<open>One call of each algorithm\<close>

lemma take_rotate_drop:
  "k \<le> length a \<Longrightarrow> take (length a - k) (rotate k a) = drop k a"
proof (cases "k = length a")
  case True
  then show ?thesis by simp
next
  case False
  assume "k \<le> length a"
  with False have "k < length a" by simp
  then show ?thesis by (simp add: rotate_drop_take)
qed

lemma py_last_length: "0 < k \<Longrightarrow> k \<le> length a \<Longrightarrow> length (py_last k a) = k"
  by (simp add: py_last_def)

lemma fit_slice_same [simp]: "length v = m \<Longrightarrow> fit_slice m v = Inr v"
  by (simp add: fit_slice_def)

lemma set_last_shift:
  assumes "0 < k" and "k \<le> length a" and "length x = k"
  shows "set_last k (rotate k a) x = Inr (drop k a @ x)"
  using assms by (simp add: set_last_def py_last_length take_rotate_drop)

lemma OLS_step:
  assumes n: "NFFT s = Some (int n)" and len: "length (OLS_input_buffer s) = n"
    and b: "0 < B s" "B s \<le> n" and x: "length x = B s"
    and h: "stored_h s = Some hv" and fresh: "flagIRchanged s \<or> H s = rdft (resize n hv)"
  shows "OLS s x h =
           emit (s\<lparr>OLS_input_buffer := drop (B s) (OLS_input_buffer s) @ x,
                   H := rdft (resize n hv), flagIRchanged := False\<rparr>)
                (py_last (B s) (cconv (drop (B s) (OLS_input_buffer s) @ x) (resize n hv)))"
proof -
  let ?buf = "drop (B s) (OLS_input_buffer s) @ x"
  let ?s3 = "s\<lparr>OLS_input_buffer := ?buf\<rparr>"
  have sl: "set_last (B s) (rotate (B s) (OLS_input_buffer s)) x = Inr ?buf"
    using b x len by (intro set_last_shift) simp_all
  have lb: "length ?buf = n" using b x len by simp
  have fc: "fft_conv ?s3 ?buf = Inr (?s3\<lparr>H := rdft (resize n hv), flagIRchanged := False\<rparr>,
                cconv (resize n ?buf) (resize n hv))"
    using n b h fresh by (intro fft_conv_ok) auto
  show ?thesis
    using n sl fc lb by (simp add: OLS_def Let_def)
qed

lemma OLA_step:
  assumes n: "NFFT s = Some (int n)" and n2: "2 \<le> n" and len: "length (left_overs s) = n"
    and yl: "len_y_left s = int n - int (B s)" and b: "0 < B s" "B s \<le> n"
    and h: "stored_h s = Some hv" and fresh: "flagIRchanged s \<or> H s = rdft (resize n hv)"
  shows "OLA s x h =
           emit (s\<lparr>H := rdft (resize n hv), flagIRchanged := False,
                   left_overs :=
                     map2 (+) (drop (B s) (left_overs s))
                              (drop (B s) (cconv (resize n x) (resize n hv))) @ replicate (B s) 0\<rparr>)
                (map2 (+) (take (B s) (cconv (resize n x) (resize n hv)))
                          (take (B s) (left_overs s)))"
proof -
  let ?y = "cconv (resize n x) (resize n hv)"
  let ?s2 = "s\<lparr>H := rdft (resize n hv), flagIRchanged := False\<rparr>"
  have fc: "fft_conv s x = Inr (?s2, ?y)"
    using n n2 h fresh by (intro fft_conv_ok) auto
  have ly: "length ?y = n" by simp
  have n1: "n \<noteq> 1" using n2 by simp
  have pl: "length (py_last (B s) (rotate (B s) (left_overs s))) = B s"
    using b len by (simp add: py_last_length)
  have fl: "take (n - B s) (rotate (B s) (left_overs s)) = drop (B s) (left_overs s)"
    using take_rotate_drop [of "B s" "left_overs s"] b len by simp
  have nb: "nat (int n - int (B s)) = n - B s" by simp
  have pt: "py_take (int n - int (B s)) xs = take (n - B s) xs" for xs :: "real list"
    using b nb by (simp add: py_take_def)
  show ?thesis
    using n fc n1 b len yl pl fl
    by (simp add: OLA_def Let_def set_first_def min_def pt)
qed

lemma collect_map_Inr: "collect (map (\<lambda>m. Inr (f m)) ms) = Inr (map f ms)"
  by (induction ms) simp_all

lemma collect_fft:
  "0 < n \<Longrightarrow> collect (map (\<lambda>m. np_fft (f m) n) ms) = Inr (map (\<lambda>m. rdft (resize n (f m))) ms)"
  by (simp add: collect_map_Inr)

lemma optimizer_Inr:
  assumes "optimize_UPOLS_parameters N b = Inr (L, K)"
  shows "0 < b \<and> 0 < N \<and> L \<in> set (rang N) \<and> K_min_of b L \<le> K"
proof -
  from assms have N: "N \<noteq> 0" and ne: "rang N \<noteq> []" and b: "b \<noteq> 0"
    by (auto simp: optimize_UPOLS_parameters_def split: if_splits)
  with assms obtain c where r: "foldl (try_L b N) None (rang N) = Some (c, L, K)"
    by (auto simp: optimize_UPOLS_parameters_def split: option.splits)
  have "acc_ok b N (foldl (try_L b N) None (rang N))"
    by (intro try_L_ok) (simp_all add: acc_ok_def)
  then show ?thesis using N b by (simp add: r acc_ok_def)
qed

lemma optimizer_Inr_bounds:
  assumes "optimize_UPOLS_parameters N b = Inr (L, K)"
  shows "0 < b \<and> 0 < L \<and> b \<le> K \<and> 0 < K"
proof -
  from optimizer_Inr [OF assms]
  have b: "0 < b" and N: "0 < N" and L: "L \<in> set (rang N)" and K: "K_min_of b L \<le> K"
    by simp_all
  from rang_member [OF N L] have "0 < L" by auto
  moreover have "b + L - 1 \<le> K" using K_min_of_lower [OF b, of L] K by linarith
  ultimately show ?thesis using b by linarith
qed

lemma partition_NFFT_bounds:
  assumes "0 < b"
  shows "b \<le> partition_NFFT b L \<and> 0 < partition_NFFT b L"
proof -
  have "partition_NFFT b L = b + L + (b - gcd L b)"
    using assms by (simp add: partition_NFFT_def)
  then show ?thesis using assms by linarith
qed

lemma partitions_pos: "hv \<noteq> [] \<Longrightarrow> 0 < L \<Longrightarrow> 0 < (length hv + L - 1) div L"
proof -
  assume "hv \<noteq> []" and L: "0 < L"
  then have "0 < length hv" by (cases hv) simp_all
  then have "L \<le> length hv + L - 1" by linarith
  then show ?thesis using L by (simp add: div_greater_zero_iff)
qed

lemma UPOLS_setup_given:
  assumes "partition_sz s = Some L" and "0 < L" and "0 < B s"
  shows "UPOLS_setup s (Some hv) =
           (if hv = [] then Inl (ValueError,
                s\<lparr>NFFT := Some (int (partition_NFFT (B s) L)), P := 0,
                  input_buffer := replicate (partition_NFFT (B s) L) 0,
                  H_upols := [], nm := []\<rparr>)
            else Inr (upols_built (s\<lparr>NFFT := Some (int (partition_NFFT (B s) L))\<rparr>) hv L
                        (partition_NFFT (B s) L)))"
proof -
  have z: "hv = [] \<Longrightarrow> (length hv + L - 1) div L = 0"
    using assms(2) by simp
  have n: "0 < partition_NFFT (B s) L"
    using assms(3) by (simp add: partition_NFFT_bounds)
  show ?thesis
  proof (cases "hv = []")
    case True
    then show ?thesis using assms z n
      by (simp add: UPOLS_setup_def Let_def)
  next
    case False
    then have "0 < (length hv + L - 1) div L" using assms(2) by (rule partitions_pos)
    then show ?thesis using assms n False
      by (simp add: UPOLS_setup_def Let_def collect_map_Inr upols_built_def)
  qed
qed

lemma UPOLS_setup_search:
  assumes "partition_sz s = None" and "optimize_UPOLS_parameters (length hv) (B s) = Inr (L, K)"
  shows "UPOLS_setup s (Some hv) =
           Inr (upols_built (s\<lparr>partition_sz := Some L, NFFT := Some (int K)\<rparr>) hv L K)"
proof -
  from optimizer_Inr_bounds [OF assms(2)] have L: "0 < L" and K: "0 < K" by simp_all
  from optimizer_Inr [OF assms(2)] have "hv \<noteq> []" by auto
  then have p: "0 < (length hv + L - 1) div L"
    using L by (rule partitions_pos)
  show ?thesis
    using assms L K p
    by (auto simp: UPOLS_setup_def Let_def collect_fft collect_map_Inr upols_built_def)
qed

lemma fit_slice_length: "fit_slice m v = Inr w \<Longrightarrow> length w = m"
  by (auto simp: fit_slice_def split: if_splits)

lemma set_last_rotate:
  assumes "0 < k" and "k \<le> length a"
  shows "set_last k (rotate k a) x = ebind (fit_slice k x) (\<lambda>w. Inr (drop k a @ w))"
  using assms by (simp add: set_last_def py_last_length take_rotate_drop)

lemma roll_rows_set0: "F \<noteq> [] \<Longrightarrow> (roll_rows F)[0 := row] = row # butlast F"
  by (simp add: roll_rows_def)

lemma length_sum_axis0 [simp]: "length (sum_axis0 rows) = length (hd rows)"
  by (simp add: sum_axis0_def)

lemma UPOLS_call:
  assumes flag: "\<not> flagIRchanged s"
    and len: "length (input_buffer s) = n" and b: "0 < B s" "B s \<le> n"
    and F: "FDL s \<noteq> []" and Hne: "H_upols s \<noteq> []" and nmne: "nm s \<noteq> []"
    and Hlen: "\<forall>row\<in>set (H_upols s). length row = n"
    and Flen: "\<forall>row\<in>set (FDL s). length row = n"
    and idx: "\<forall>i\<in>set (nm s). i < length (FDL s)"
    and w: "fit_slice (B s) x = Inr w"
  shows "UPOLS s x h =
           emit (s\<lparr>input_buffer := drop (B s) (input_buffer s) @ w,
                   FDL := rdft (drop (B s) (input_buffer s) @ w) # butlast (FDL s)\<rparr>)
             (py_last (B s) (map Re (idft (sum_axis0
                (map2 (map2 (*))
                   (map (\<lambda>i. (rdft (drop (B s) (input_buffer s) @ w) # butlast (FDL s)) ! i) (nm s))
                   (H_upols s))))))"
proof -
  let ?buf = "drop (B s) (input_buffer s) @ w"
  let ?F = "rdft ?buf # butlast (FDL s)"
  let ?prod = "map2 (map2 (*)) (map (\<lambda>i. ?F ! i) (nm s)) (H_upols s)"
  have lw: "length w = B s" using w by (rule fit_slice_length)
  have lb: "length ?buf = n" using len b lw by simp
  have sl: "set_last (B s) (rotate (B s) (input_buffer s)) x = Inr ?buf"
    using b len w by (simp add: set_last_rotate)
  have ft: "np_fft ?buf (length ?buf) = Inr (rdft ?buf)"
    using lb b by simp
  obtain i0 nms where nm: "nm s = i0 # nms" using nmne by (cases "nm s") auto
  obtain h0 hs where H: "H_upols s = h0 # hs" using Hne by (cases "H_upols s") auto
  have lF: "length ?F = length (FDL s)" using F by simp
  have "set (butlast (FDL s)) \<subseteq> set (FDL s)"
    by (auto dest: in_set_butlastD)
  then have rows: "\<forall>row\<in>set ?F. length row = n" using Flen lb by auto
  have "i0 < length ?F" using idx nm lF by simp
  then have "?F ! i0 \<in> set ?F" by (rule nth_mem)
  then have "length (?F ! i0) = n" using rows by blast
  then have "length (hd ?prod) = n"
    using nm H Hlen by simp
  then have pos: "0 < length (sum_axis0 ?prod)" using b by simp
  show ?thesis
    using flag sl ft pos F
    by (simp add: UPOLS_def Let_def roll_rows_set0 del: length_sum_axis0)
qed

lemma sum_list_swap:
  fixes g :: "'a \<Rightarrow> nat \<Rightarrow> complex"
  shows "(\<Sum>k<n. sum_list (map (\<lambda>r. g r k) rows)) = sum_list (map (\<lambda>r. \<Sum>k<n. g r k) rows)"
  by (induction rows) (simp_all add: sum.distrib)

lemma idft_sum_axis0:
  assumes ne: "rows \<noteq> []" and len: "\<forall>r\<in>set rows. length r = n"
  shows "map Re (idft (sum_axis0 rows)) = sum_rows n (map (\<lambda>r. map Re (idft r)) rows)"
proof (rule nth_equalityI)
  have hd: "length (hd rows) = n" using ne len by (cases rows) auto
  show "length (map Re (idft (sum_axis0 rows))) = length (sum_rows n (map (\<lambda>r. map Re (idft r)) rows))"
    using hd by (simp add: sum_rows_def)
  fix t assume "t < length (map Re (idft (sum_axis0 rows)))"
  then have t: "t < n" using hd by simp
  have nth: "sum_axis0 rows ! k = sum_list (map (\<lambda>r. r ! k) rows)" if "k < n" for k
    using that hd by (simp add: sum_axis0_def)
  have l: "length (sum_axis0 rows) = n" using hd by simp
  have "(\<Sum>k<n. sum_axis0 rows ! k * cis (2 * pi * real k * real t / real n))
      = (\<Sum>k<n. sum_list (map (\<lambda>r. r ! k * cis (2 * pi * real k * real t / real n)) rows))"
    by (intro sum.cong refl) (simp add: nth sum_list_mult_const)
  then have "idft_coeff (sum_axis0 rows) t
      = (\<Sum>k<n. sum_list (map (\<lambda>r. r ! k * cis (2 * pi * real k * real t / real n)) rows)) / of_nat n"
    unfolding idft_coeff_def l by simp
  also have "\<dots> = sum_list (map (\<lambda>r. \<Sum>k<n. r ! k * cis (2 * pi * real k * real t / real n)) rows) / of_nat n"
    by (simp only: sum_list_swap)
  also have "\<dots> = sum_list (map (\<lambda>r. (\<Sum>k<n. r ! k * cis (2 * pi * real k * real t / real n)) / of_nat n) rows)"
    by (simp only: divide_inverse sum_list_mult_const)
  also have "\<dots> = sum_list (map (\<lambda>r. idft_coeff r t) rows)"
    using len by (intro arg_cong [where f = sum_list] map_cong refl) (simp add: idft_coeff_def)
  finally have "Re (idft_coeff (sum_axis0 rows) t) = sum_list (map (\<lambda>r. Re (idft_coeff r t)) rows)"
    by (simp add: Re_sum_list comp_def)
  moreover have "sum_rows n (map (\<lambda>r. map Re (idft r)) rows) ! t
      = sum_list (map (\<lambda>r. Re (idft_coeff r t)) rows)"
    using t len
    by (simp add: sum_rows_def comp_def idft_def cong: map_cong)
  ultimately show "map Re (idft (sum_axis0 rows)) ! t = sum_rows n (map (\<lambda>r. map Re (idft r)) rows) ! t"
    using t hd by (simp add: idft_def)
qed

lemma OLS_call:
  assumes n: "NFFT s = Some (int n)" and len: "length (OLS_input_buffer s) = n"
    and b: "0 < B s" "B s \<le> n"
    and h: "stored_h s = Some hv" and fresh: "flagIRchanged s \<or> H s = rdft (resize n hv)"
  shows "OLS s x h =
           (case fit_slice (B s) x of
              Inl e \<Rightarrow> Inl (e, s\<lparr>OLS_input_buffer := rotate (B s) (OLS_input_buffer s)\<rparr>)
            | Inr w \<Rightarrow>
                emit (s\<lparr>OLS_input_buffer := drop (B s) (OLS_input_buffer s) @ w,
                        H := rdft (resize n hv), flagIRchanged := False\<rparr>)
                     (py_last (B s) (cconv (drop (B s) (OLS_input_buffer s) @ w) (resize n hv))))"
proof (cases "fit_slice (B s) x")
  case (Inl e)
  then show ?thesis
    using n b len by (simp add: OLS_def Let_def set_last_rotate)
next
  case (Inr w)
  let ?buf = "drop (B s) (OLS_input_buffer s) @ w"
  let ?s3 = "s\<lparr>OLS_input_buffer := ?buf\<rparr>"
  have lw: "length w = B s" using Inr by (rule fit_slice_length)
  have lb: "length ?buf = n" using b lw len by simp
  have fc: "fft_conv ?s3 ?buf = Inr (?s3\<lparr>H := rdft (resize n hv), flagIRchanged := False\<rparr>,
                cconv (resize n ?buf) (resize n hv))"
    using n b h fresh by (intro fft_conv_ok) auto
  show ?thesis
    using n Inr fc lb b len by (simp add: OLS_def Let_def set_last_rotate)
qed

lemma OLS_first:
  assumes "NFFT s = None" and "hv \<noteq> []"
  shows "OLS s x (Some hv) =
           OLS (s\<lparr>NFFT := Some (int (B s + length hv - 1)),
                   OLS_input_buffer := replicate (B s + length hv - 1) 0\<rparr>) x (Some hv)"
proof -
  have l: "0 < length hv" using assms(2) by (cases hv) simp_all
  then have pos: "\<not> int (B s) + int (length hv) < 1" by linarith
  have e: "nat (int (B s) + int (length hv) - 1) = B s + length hv - Suc 0" using l by linarith
  show ?thesis using assms(1) pos by (simp add: OLS_def OLS_setup_def Let_def e)
qed

lemma OLA_first:
  assumes "NFFT s = None" and "hv \<noteq> []"
  shows "OLA s x (Some hv) =
           OLA (s\<lparr>NFFT := Some (int (B s + length hv - 1)),
                   left_overs := replicate (B s + length hv - 1) 0,
                   len_y_left := int (B s + length hv - 1) - int (B s)\<rparr>) x (Some hv)"
proof -
  have l: "0 < length hv" using assms(2) by (cases hv) simp_all
  then have pos: "\<not> int (B s) + int (length hv) < 1" by linarith
  have e: "nat (int (B s) + int (length hv) - 1) = B s + length hv - Suc 0" using l by linarith
  show ?thesis using assms(1) pos by (simp add: OLA_def OLA_setup_def Let_def e)
qed

lemma emit_emitted: "ref s \<noteq> None \<or> \<not> normalize_flag s \<Longrightarrow> emit s out = Inr (s, emitted s out)"
  by (auto simp: emit_def emitted_def normalize_output_def)

lemma emit_Inr: "emit s out = Inr (s', block) \<Longrightarrow> s' = s \<and> block = emitted s out"
  by (auto simp: emit_def emitted_def normalize_output_def raise_in_def ebind_def
      split: if_splits option.splits)

lemma fft_conv_NFFT: "fft_conv s x = Inr (s2, y) \<Longrightarrow> NFFT s2 = NFFT s"
  by (auto simp: fft_conv_def Let_def ebind_def raise_in_def split: sum.splits if_splits option.splits)

lemma OLA_not_one:
  assumes "NFFT s = Some 1"
  shows "OLA s x h \<noteq> Inr r"
proof
  assume r: "OLA s x h = Inr r"
  show False
  proof (cases "fft_conv s x")
    case (Inl e)
    then show False using assms r by (simp add: OLA_def)
  next
    case (Inr p)
    obtain s2 y where p: "p = (s2, y)" by (cases p)
    have "NFFT s2 = Some 1" using Inr p assms fft_conv_NFFT by metis
    then show False using assms r Inr p by (simp add: OLA_def)
  qed
qed

lemma OLA_eq:
  assumes ok: "ola_ok s" and b: "0 < B s" and h: "stored_h s = Some hv" and ne: "hv \<noteq> []"
    and n1: "run_n s hv \<noteq> 1"
  shows "OLA s x (Some hv) = emit (ola_after s hv x) (ola_block s hv x)"
proof (cases "NFFT s")
  case None
  let ?n = "B s + length hv - 1"
  let ?s1 = "s\<lparr>NFFT := Some (int ?n), left_overs := replicate ?n 0, len_y_left := int ?n - int (B s)\<rparr>"
  have rn: "run_n s hv = ?n" using None by (simp add: run_n_def)
  have l: "0 < length hv" using ne by (cases hv) simp_all
  have n2: "2 \<le> ?n" using n1 rn b l by linarith
  have bn: "B s \<le> ?n" using l by linarith
  have fl: "flagIRchanged s" using ok None by (simp add: ola_ok_def)
  have "OLA s x (Some hv) = OLA ?s1 x (Some hv)"
    using None ne by (rule OLA_first)
  also have "\<dots> = emit (?s1\<lparr>H := rdft (resize ?n hv), flagIRchanged := False,
                   left_overs :=
                     map2 (+) (drop (B ?s1) (left_overs ?s1))
                              (drop (B ?s1) (cconv (resize ?n x) (resize ?n hv))) @ replicate (B ?s1) 0\<rparr>)
                (map2 (+) (take (B ?s1) (cconv (resize ?n x) (resize ?n hv)))
                          (take (B ?s1) (left_overs ?s1)))"
    using n2 b h fl bn by (intro OLA_step) simp_all
  also have "\<dots> = emit (ola_after s hv x) (ola_block s hv x)"
    using None by (simp add: ola_after_def ola_block_def ola_y_def rn carry_before_def)
  finally show ?thesis .
next
  case (Some kk)
  have "0 \<le> kk" using ok Some by (simp add: ola_ok_def)
  then obtain n where kn: "kk = int n" using nonneg_int_cases by blast
  have Some: "NFFT s = Some (int n)" using Some kn by simp
  have rn: "run_n s hv = n" using Some by (simp add: run_n_def)
  have k: "2 \<le> n" "length (left_overs s) = n" "len_y_left s = int n - int (B s)" "B s \<le> n"
    "flagIRchanged s \<or> H s = rdft (resize n hv)"
    using ok Some h by (auto simp: ola_ok_def fresh_H_def)
  have "OLA s x (Some hv) = emit (s\<lparr>H := rdft (resize n hv), flagIRchanged := False,
                   left_overs :=
                     map2 (+) (drop (B s) (left_overs s))
                              (drop (B s) (cconv (resize n x) (resize n hv))) @ replicate (B s) 0\<rparr>)
                (map2 (+) (take (B s) (cconv (resize n x) (resize n hv)))
                          (take (B s) (left_overs s)))"
    using Some k b h by (intro OLA_step) simp_all
  also have "\<dots> = emit (ola_after s hv x) (ola_block s hv x)"
  proof -
    have eq: "s\<lparr>NFFT := Some (int n), len_y_left := int n - int (B s)\<rparr> = s" using Some k by simp
    show ?thesis
      using Some by (simp add: ola_after_def ola_block_def ola_y_def rn carry_before_def eq)
  qed
  finally show ?thesis .
qed

lemma OLS_eq:
  assumes ok: "ols_ok s" and b: "0 < B s" and h: "stored_h s = Some hv" and ne: "hv \<noteq> []"
    and w: "fit_slice (B s) x = Inr w"
  shows "OLS s x (Some hv) = emit (ols_after s hv w) (ols_block s hv w)"
proof (cases "NFFT s")
  case None
  let ?n = "B s + length hv - 1"
  let ?s1 = "s\<lparr>NFFT := Some (int ?n), OLS_input_buffer := replicate ?n 0\<rparr>"
  have rn: "run_n s hv = ?n" using None by (simp add: run_n_def)
  have l: "0 < length hv" using ne by (cases hv) simp_all
  have fl: "flagIRchanged s" using ok None by (simp add: ols_ok_def)
  have bn: "B s \<le> ?n" using l by linarith
  have "OLS s x (Some hv) = OLS ?s1 x (Some hv)"
    using None ne by (rule OLS_first)
  also have "\<dots> = (case fit_slice (B ?s1) x of
              Inl e \<Rightarrow> Inl (e, ?s1\<lparr>OLS_input_buffer := rotate (B ?s1) (OLS_input_buffer ?s1)\<rparr>)
            | Inr w \<Rightarrow>
                emit (?s1\<lparr>OLS_input_buffer := drop (B ?s1) (OLS_input_buffer ?s1) @ w,
                        H := rdft (resize ?n hv), flagIRchanged := False\<rparr>)
                     (py_last (B ?s1) (cconv (drop (B ?s1) (OLS_input_buffer ?s1) @ w) (resize ?n hv))))"
    using b h fl bn by (intro OLS_call) simp_all
  also have "\<dots> = emit (ols_after s hv w) (ols_block s hv w)"
    using None w by (simp add: ols_after_def ols_block_def rn ols_before_def)
  finally show ?thesis .
next
  case (Some kk)
  have "0 \<le> kk" using ok Some by (simp add: ols_ok_def)
  then obtain n where kn: "kk = int n" using nonneg_int_cases by blast
  have Some: "NFFT s = Some (int n)" using Some kn by simp
  have rn: "run_n s hv = n" using Some by (simp add: run_n_def)
  have k: "length (OLS_input_buffer s) = n" "B s \<le> n"
    "flagIRchanged s \<or> H s = rdft (resize n hv)"
    using ok Some h by (auto simp: ols_ok_def fresh_H_def)
  have "OLS s x (Some hv) = (case fit_slice (B s) x of
              Inl e \<Rightarrow> Inl (e, s\<lparr>OLS_input_buffer := rotate (B s) (OLS_input_buffer s)\<rparr>)
            | Inr w \<Rightarrow>
                emit (s\<lparr>OLS_input_buffer := drop (B s) (OLS_input_buffer s) @ w,
                        H := rdft (resize n hv), flagIRchanged := False\<rparr>)
                     (py_last (B s) (cconv (drop (B s) (OLS_input_buffer s) @ w) (resize n hv))))"
    using Some k b h by (intro OLS_call) simp_all
  also have "\<dots> = emit (ols_after s hv w) (ols_block s hv w)"
  proof -
    have eq: "s\<lparr>NFFT := Some (int n)\<rparr> = s" using Some by simp
    show ?thesis
      using Some w by (simp add: ols_after_def ols_block_def rn ols_before_def eq)
  qed
  finally show ?thesis .
qed

lemma upols_built_ready:
  assumes b: "B s \<le> n" and ne: "hv \<noteq> []" and L: "0 < L" and n: "NFFT s = Some (int n)"
  shows "upols_ready (upols_built s hv L n) n \<and> \<not> flagIRchanged (upols_built s hv L n)"
proof -
  let ?p = "(length hv + L - 1) div L"
  let ?slots = "map (\<lambda>m. (m * L) div B s) [0..<?p]"
  have p: "0 < ?p" using ne L by (rule partitions_pos)
  have idx: "i < Max (set ?slots) + 1" if "i \<in> set ?slots" for i
  proof -
    have "i \<le> Max (set ?slots)" using that by (intro Max_ge) simp_all
    then show ?thesis by simp
  qed
  show ?thesis
    using b n p idx
    by (auto simp: upols_ready_def upols_built_def Let_def list_all_iff)
qed

lemma UPOLS_eq:
  assumes flag: "\<not> flagIRchanged s" and r: "upols_ready s n" and b: "0 < B s"
    and w: "fit_slice (B s) x = Inr w"
  shows "UPOLS s x h = emit (upols_after s w) (upols_block s w)"
proof -
  have "UPOLS s x h =
           emit (s\<lparr>input_buffer := drop (B s) (input_buffer s) @ w,
                   FDL := rdft (drop (B s) (input_buffer s) @ w) # butlast (FDL s)\<rparr>)
             (py_last (B s) (map Re (idft (sum_axis0
                (map2 (map2 (*))
                   (map (\<lambda>i. (rdft (drop (B s) (input_buffer s) @ w) # butlast (FDL s)) ! i) (nm s))
                   (H_upols s))))))"
    using flag r b w by (intro UPOLS_call [where n = n]) (simp_all add: upols_ready_def list_all_iff)
  then show ?thesis by (simp add: upols_after_def upols_block_def)
qed

lemma UPOLS_err:
  assumes flag: "\<not> flagIRchanged s" and r: "upols_ready s n" and b: "0 < B s"
    and w: "fit_slice (B s) x = Inl e"
  shows "UPOLS s x h = Inl (e, s\<lparr>input_buffer := rotate (B s) (input_buffer s)\<rparr>)"
  using assms by (simp add: UPOLS_def Let_def set_last_rotate upols_ready_def)

lemma UPOLS_flag:
  assumes "flagIRchanged s" and "UPOLS_setup s h = Inr sp" and "\<not> flagIRchanged sp"
  shows "UPOLS s x h = UPOLS sp x h"
  using assms by (simp add: UPOLS_def)

lemma UPOLS_flag_err:
  assumes "flagIRchanged s" and "UPOLS_setup s h = Inl e"
  shows "UPOLS s x h = Inl e"
  using assms by (simp add: UPOLS_def)

lemma upols_built_B [simp]: "B (upols_built s hv L n) = B s"
  by (simp add: upols_built_def Let_def)

lemma UPOLS_setup_Inr:
  assumes b: "0 < B s" and ne: "hv \<noteq> []" and r: "UPOLS_setup s (Some hv) = Inr sp"
  shows "\<exists>L n. 0 < L \<and> B s \<le> n
           \<and> sp = upols_built (s\<lparr>partition_sz := Some L, NFFT := Some (int n)\<rparr>) hv L n
           \<and> (case partition_sz s of
                 None \<Rightarrow> optimize_UPOLS_parameters (length hv) (B s) = Inr (L, n)
               | Some L' \<Rightarrow> L = L' \<and> n = partition_NFFT (B s) L)"
proof (cases "partition_sz s")
  case None
  show ?thesis
  proof (cases "optimize_UPOLS_parameters (length hv) (B s)")
    case (Inl e)
    then show ?thesis using r None by (simp add: UPOLS_setup_def)
  next
    case (Inr p)
    obtain L K where p: "p = (L, K)" by (cases p)
    have o: "optimize_UPOLS_parameters (length hv) (B s) = Inr (L, K)" using Inr p by simp
    have "sp = upols_built (s\<lparr>partition_sz := Some L, NFFT := Some (int K)\<rparr>) hv L K"
      using UPOLS_setup_search [OF None o] r by simp
    moreover have "0 < L \<and> B s \<le> K" using optimizer_Inr_bounds [OF o] by simp
    ultimately show ?thesis using None o by auto
  qed
next
  case (Some L)
  show ?thesis
  proof (cases "L = 0")
    case True
    then show ?thesis using r Some by (simp add: UPOLS_setup_def)
  next
    case False
    then have L: "0 < L" by simp
    have eq: "s\<lparr>partition_sz := Some L\<rparr> = s" using Some by simp
    have "sp = upols_built (s\<lparr>NFFT := Some (int (partition_NFFT (B s) L))\<rparr>) hv L (partition_NFFT (B s) L)"
      using UPOLS_setup_given [OF Some L b, of hv] r ne by simp
    then have "sp = upols_built (s\<lparr>partition_sz := Some L, NFFT := Some (int (partition_NFFT (B s) L))\<rparr>) hv L (partition_NFFT (B s) L)"
      by (simp add: eq)
    moreover have "B s \<le> partition_NFFT (B s) L" using partition_NFFT_bounds [OF b] by simp
    ultimately show ?thesis using Some L by auto
  qed
qed

lemma upols_after_ready:
  assumes "upols_ready s n" and "length w = B s"
  shows "upols_ready (upols_after s w) n"
proof -
  have "set (butlast (FDL s)) \<subseteq> set (FDL s)" by (auto dest: in_set_butlastD)
  then show ?thesis using assms
    by (auto simp: upols_ready_def upols_after_def list_all_iff)
qed

section \<open>One call of process\<close>

lemma update_ir_fields [simp]:
  "B (update_ir s h) = B s"
  "method_kind (update_ir s h) = method_kind s"
  "NFFT (update_ir s h) = NFFT s"
  "left_overs (update_ir s h) = left_overs s"
  "len_y_left (update_ir s h) = len_y_left s"
  "partition_sz (update_ir s h) = partition_sz s"
  "normalize_flag (update_ir s h) = normalize_flag s"
  "H (update_ir s h) = H s"
  "H_upols (update_ir s h) = H_upols s"
  "OLS_input_buffer (update_ir s h) = OLS_input_buffer s"
  "input_buffer (update_ir s h) = input_buffer s"
  "P (update_ir s h) = P s"
  "nm (update_ir s h) = nm s"
  "FDL (update_ir s h) = FDL s"
  by (simp_all add: update_ir_def generate_ref_def split: option.splits)

lemma update_ir_None [simp]: "update_ir s None = s"
  by (simp add: update_ir_def)

lemma update_ir_ok:
  assumes "engine_ok s" and "h \<noteq> Some []"
  shows "engine_ok (update_ir s h)"
proof (cases h)
  case None
  then show ?thesis using assms by simp
next
  case (Some hv)
  show ?thesis
  proof (cases "np_any_ne hv (stored_h s)")
    case False
    then show ?thesis using assms Some by (simp add: update_ir_def)
  next
    case True
    have "hv \<noteq> []" using assms Some by simp
    then show ?thesis using assms(1) True Some
      by (auto simp: update_ir_def generate_ref_def engine_ok_def ola_ok_def ols_ok_def
          upols_ok_def fresh_H_def split: fir_method.splits option.splits)
  qed
qed

lemma engine_ok_ref:
  "engine_ok s \<Longrightarrow> stored_h s = Some hv \<Longrightarrow> ref s = Some (sum_list (map abs hv)) \<and> hv \<noteq> []"
  by (simp add: engine_ok_def)

lemma ola_after_fields [simp]:
  "B (ola_after s hv x) = B s"
  "stored_h (ola_after s hv x) = stored_h s"
  "ref (ola_after s hv x) = ref s"
  "normalize_flag (ola_after s hv x) = normalize_flag s"
  "method_kind (ola_after s hv x) = method_kind s"
  "NFFT (ola_after s hv x) = Some (int (run_n s hv))"
  "flagIRchanged (ola_after s hv x) = False"
  "H (ola_after s hv x) = rdft (resize (run_n s hv) hv)"
  by (simp_all add: ola_after_def)

lemma ols_after_fields [simp]:
  "B (ols_after s hv w) = B s"
  "stored_h (ols_after s hv w) = stored_h s"
  "ref (ols_after s hv w) = ref s"
  "normalize_flag (ols_after s hv w) = normalize_flag s"
  "method_kind (ols_after s hv w) = method_kind s"
  "NFFT (ols_after s hv w) = Some (int (run_n s hv))"
  "flagIRchanged (ols_after s hv w) = False"
  "H (ols_after s hv w) = rdft (resize (run_n s hv) hv)"
  "OLS_input_buffer (ols_after s hv w) = drop (B s) (ols_before s (run_n s hv)) @ w"
  by (simp_all add: ols_after_def)

lemma upols_after_fields [simp]:
  "B (upols_after s w) = B s"
  "stored_h (upols_after s w) = stored_h s"
  "ref (upols_after s w) = ref s"
  "normalize_flag (upols_after s w) = normalize_flag s"
  "method_kind (upols_after s w) = method_kind s"
  "NFFT (upols_after s w) = NFFT s"
  "flagIRchanged (upols_after s w) = flagIRchanged s"
  "H_upols (upols_after s w) = H_upols s"
  "H (upols_after s w) = H s"
  "nm (upols_after s w) = nm s"
  "P (upols_after s w) = P s"
  "partition_sz (upols_after s w) = partition_sz s"
  "input_buffer (upols_after s w) = drop (B s) (input_buffer s) @ w"
  "FDL (upols_after s w) = rdft (drop (B s) (input_buffer s) @ w) # butlast (FDL s)"
  by (simp_all add: upols_after_def)

lemma upols_built_fields [simp]:
  "stored_h (upols_built s hv L n) = stored_h s"
  "ref (upols_built s hv L n) = ref s"
  "normalize_flag (upols_built s hv L n) = normalize_flag s"
  "method_kind (upols_built s hv L n) = method_kind s"
  "NFFT (upols_built s hv L n) = NFFT s"
  "partition_sz (upols_built s hv L n) = partition_sz s"
  "H (upols_built s hv L n) = H s"
  "flagIRchanged (upols_built s hv L n) = False"
  "input_buffer (upols_built s hv L n) = replicate n 0"
  by (simp_all add: upols_built_def Let_def)

lemma run_n_lower:
  "ola_ok s \<or> ols_ok s \<Longrightarrow> hv \<noteq> [] \<Longrightarrow> B s \<le> run_n s hv"
proof -
  assume ok: "ola_ok s \<or> ols_ok s" and ne: "hv \<noteq> []"
  have l: "0 < length hv" using ne by (cases hv) simp_all
  show ?thesis
  proof (cases "NFFT s")
    case None
    have "B s \<le> B s + length hv - 1" using l by linarith
    then show ?thesis using None by (simp add: run_n_def)
  next
    case (Some k)
    then show ?thesis using ok by (auto simp: run_n_def ola_ok_def ols_ok_def)
  qed
qed

text \<open>Calls that return a block, algorithm by algorithm.\<close>

lemma process_OLA_Inr:
  assumes ok: "engine_ok s" and h: "h \<noteq> Some []" and m: "method_kind s = OverlapAdd"
    and r: "process s x h = Inr (s', out)"
  shows "\<exists>hv. stored_h (update_ir s h) = Some hv \<and> hv \<noteq> []
            \<and> 2 \<le> run_n (update_ir s h) hv
            \<and> s' = ola_after (update_ir s h) hv x
            \<and> out = emitted s' (ola_block (update_ir s h) hv x)"
proof -
  let ?s1 = "update_ir s h"
  have ok1: "engine_ok ?s1" using ok h by (rule update_ir_ok)
  have p: "process s x h = OLA ?s1 x (stored_h ?s1)"
    using m by (simp add: process_def Let_def)
  have ola: "ola_ok ?s1" and b: "0 < B ?s1" using ok1 m by (simp_all add: engine_ok_def)
  show ?thesis
  proof (cases "stored_h ?s1")
    case None
    then have "NFFT ?s1 = None" using ok1 m by (simp add: engine_ok_def)
    then show ?thesis using p r None by (simp add: OLA_def OLA_setup_def)
  next
    case (Some hv)
    then have ne: "hv \<noteq> []" using ok1 by (simp add: engine_ok_def)
    have n1: "run_n ?s1 hv \<noteq> 1"
    proof
      assume one: "run_n ?s1 hv = 1"
      show False
      proof (cases "NFFT ?s1")
        case None
        let ?s2 = "?s1\<lparr>NFFT := Some (int (B ?s1 + length hv - 1)),
                   left_overs := replicate (B ?s1 + length hv - 1) 0,
                   len_y_left := int (B ?s1 + length hv - 1) - int (B ?s1)\<rparr>"
        have "OLA ?s1 x (Some hv) = OLA ?s2 x (Some hv)" using None ne by (rule OLA_first)
        moreover have "NFFT ?s2 = Some 1" using one None by (simp add: run_n_def)
        ultimately show False using OLA_not_one p r Some by metis
      next
        case (Some k)
        have "2 \<le> k" using ola Some by (simp add: ola_ok_def)
        moreover have "nat k = 1" using one Some by (simp add: run_n_def)
        ultimately show False by linarith
      qed
    qed
    have "B ?s1 \<le> run_n ?s1 hv" using ola ne by (intro run_n_lower) simp_all
    then have n2: "2 \<le> run_n ?s1 hv" using n1 b by linarith
    have "OLA ?s1 x (Some hv) = emit (ola_after ?s1 hv x) (ola_block ?s1 hv x)"
      using ola b Some ne n1 by (rule OLA_eq)
    then have "emit (ola_after ?s1 hv x) (ola_block ?s1 hv x) = Inr (s', out)"
      using p r Some by simp
    then have "s' = ola_after ?s1 hv x \<and> out = emitted (ola_after ?s1 hv x) (ola_block ?s1 hv x)"
      by (rule emit_Inr)
    then show ?thesis using Some ne n2 by simp
  qed
qed

lemma process_OLS_cases:
  assumes ok: "engine_ok s" and h: "h \<noteq> Some []" and m: "method_kind s = OverlapSave"
    and hv: "stored_h (update_ir s h) = Some hv"
  shows "process s x h =
           (case fit_slice (B s) x of
              Inl e \<Rightarrow> OLS (update_ir s h) x (Some hv)
            | Inr w \<Rightarrow> Inr (ols_after (update_ir s h) hv w,
                         emitted (ols_after (update_ir s h) hv w) (ols_block (update_ir s h) hv w)))"
proof -
  let ?s1 = "update_ir s h"
  have ok1: "engine_ok ?s1" using ok h by (rule update_ir_ok)
  have p: "process s x h = OLS ?s1 x (Some hv)"
    using m hv by (simp add: process_def Let_def)
  have ols: "ols_ok ?s1" and b: "0 < B ?s1" using ok1 m by (simp_all add: engine_ok_def)
  have ne: "hv \<noteq> []" and rf: "ref ?s1 \<noteq> None" using ok1 hv by (simp_all add: engine_ok_def)
  show ?thesis
  proof (cases "fit_slice (B s) x")
    case (Inl e)
    then show ?thesis using p by simp
  next
    case (Inr w)
    then have "fit_slice (B ?s1) x = Inr w" by simp
    with ols b hv ne have "OLS ?s1 x (Some hv) = emit (ols_after ?s1 hv w) (ols_block ?s1 hv w)"
      by (rule OLS_eq)
    then show ?thesis using p Inr rf by (simp add: emit_emitted)
  qed
qed

lemma process_OLS_Inr:
  assumes ok: "engine_ok s" and h: "h \<noteq> Some []" and m: "method_kind s = OverlapSave"
    and r: "process s x h = Inr (s', out)"
  shows "\<exists>hv w. stored_h (update_ir s h) = Some hv \<and> hv \<noteq> []
            \<and> fit_slice (B s) x = Inr w
            \<and> s' = ols_after (update_ir s h) hv w
            \<and> out = emitted s' (ols_block (update_ir s h) hv w)"
proof -
  let ?s1 = "update_ir s h"
  have ok1: "engine_ok ?s1" using ok h by (rule update_ir_ok)
  have ols: "ols_ok ?s1" and b: "0 < B ?s1" using ok1 m by (simp_all add: engine_ok_def)
  show ?thesis
  proof (cases "stored_h ?s1")
    case None
    then have "NFFT ?s1 = None" using ok1 m by (simp add: engine_ok_def)
    then show ?thesis using r None m by (simp add: process_def Let_def OLS_def OLS_setup_def)
  next
    case (Some hv)
    then have ne: "hv \<noteq> []" using ok1 by (simp add: engine_ok_def)
    have p: "process s x h = OLS ?s1 x (Some hv)"
      using m Some by (simp add: process_def Let_def)
    show ?thesis
    proof (cases "fit_slice (B s) x")
      case (Inl e)
      have bn: "B ?s1 \<le> run_n ?s1 hv" using ols ne by (intro run_n_lower) simp_all
      have "\<exists>st. OLS ?s1 x (Some hv) = Inl (e, st)"
      proof (cases "NFFT ?s1")
        case None
        let ?n = "B ?s1 + length hv - 1"
        let ?s2 = "?s1\<lparr>NFFT := Some (int ?n), OLS_input_buffer := replicate ?n 0\<rparr>"
        have fl: "flagIRchanged ?s1" using ols None by (simp add: ols_ok_def)
        have bn': "B ?s1 \<le> ?n" using bn None by (simp add: run_n_def)
        have "OLS ?s1 x (Some hv) = OLS ?s2 x (Some hv)" using None ne by (rule OLS_first)
        also have "\<dots> = (case fit_slice (B ?s2) x of
              Inl e \<Rightarrow> Inl (e, ?s2\<lparr>OLS_input_buffer := rotate (B ?s2) (OLS_input_buffer ?s2)\<rparr>)
            | Inr w \<Rightarrow>
                emit (?s2\<lparr>OLS_input_buffer := drop (B ?s2) (OLS_input_buffer ?s2) @ w,
                        H := rdft (resize ?n hv), flagIRchanged := False\<rparr>)
                     (py_last (B ?s2) (cconv (drop (B ?s2) (OLS_input_buffer ?s2) @ w) (resize ?n hv))))"
          using b Some fl bn' by (intro OLS_call) simp_all
        finally show ?thesis using Inl by simp
      next
        case (Some kk)
        have "0 \<le> kk" using ols Some by (simp add: ols_ok_def)
        then obtain n where kn: "kk = int n" using nonneg_int_cases by blast
        have Some: "NFFT ?s1 = Some (int n)" using Some kn by simp
        have k: "length (OLS_input_buffer ?s1) = n" "B ?s1 \<le> n"
          "flagIRchanged ?s1 \<or> H ?s1 = rdft (resize n hv)"
          using ols Some \<open>stored_h ?s1 = Some hv\<close> by (auto simp: ols_ok_def fresh_H_def)
        have "OLS ?s1 x (Some hv) = (case fit_slice (B ?s1) x of
              Inl e \<Rightarrow> Inl (e, ?s1\<lparr>OLS_input_buffer := rotate (B ?s1) (OLS_input_buffer ?s1)\<rparr>)
            | Inr w \<Rightarrow>
                emit (?s1\<lparr>OLS_input_buffer := drop (B ?s1) (OLS_input_buffer ?s1) @ w,
                        H := rdft (resize n hv), flagIRchanged := False\<rparr>)
                     (py_last (B ?s1) (cconv (drop (B ?s1) (OLS_input_buffer ?s1) @ w) (resize n hv))))"
          using Some k b \<open>stored_h ?s1 = Some hv\<close> by (intro OLS_call) simp_all
        then show ?thesis using Inl by simp
      qed
      then show ?thesis using p r by auto
    next
      case (Inr w)
      have "process s x h = Inr (ols_after ?s1 hv w, emitted (ols_after ?s1 hv w) (ols_block ?s1 hv w))"
        using process_OLS_cases [OF ok h m Some, of x] Inr by simp
      then show ?thesis using r Some ne Inr by simp
    qed
  qed
qed

lemma process_UPOLS_Inr:
  assumes ok: "engine_ok s" and h: "h \<noteq> Some []" and m: "method_kind s = Upols"
    and r: "process s x h = Inr (s', out)"
  shows "\<exists>hv sp n w. stored_h (update_ir s h) = Some hv \<and> hv \<noteq> []
            \<and> (if flagIRchanged (update_ir s h) then UPOLS_setup (update_ir s h) (Some hv)
                else Inr (update_ir s h)) = Inr sp
            \<and> \<not> flagIRchanged sp \<and> upols_ready sp n \<and> B sp = B s
            \<and> fit_slice (B s) x = Inr w
            \<and> s' = upols_after sp w
            \<and> out = emitted s' (upols_block sp w)"
proof -
  let ?s1 = "update_ir s h"
  have ok1: "engine_ok ?s1" using ok h by (rule update_ir_ok)
  have up: "upols_ok ?s1" and b: "0 < B ?s1" using ok1 m by (simp_all add: engine_ok_def)
  have p: "process s x h = UPOLS ?s1 x (stored_h ?s1)"
    using m by (simp add: process_def Let_def)
  show ?thesis
  proof (cases "stored_h ?s1")
    case None
    then have "flagIRchanged ?s1" using ok1 by (simp add: engine_ok_def)
    then show ?thesis using p r None by (simp add: UPOLS_def UPOLS_setup_def)
  next
    case (Some hv)
    then have ne: "hv \<noteq> []" and rf: "ref ?s1 \<noteq> None" using ok1 by (simp_all add: engine_ok_def)
    have prep: "\<exists>sp n. (if flagIRchanged ?s1 then UPOLS_setup ?s1 (Some hv) else Inr ?s1) = Inr sp
                 \<and> \<not> flagIRchanged sp \<and> upols_ready sp n \<and> B sp = B s \<and> ref sp = ref ?s1
                 \<and> UPOLS ?s1 x (Some hv) = UPOLS sp x (Some hv)"
    proof (cases "flagIRchanged ?s1")
      case False
      then show ?thesis using up by (auto simp: upols_ok_def)
    next
      case True
      show ?thesis
      proof (cases "UPOLS_setup ?s1 (Some hv)")
        case (Inl e)
        then show ?thesis using UPOLS_flag_err [OF True Inl] p r Some by simp
      next
        case (Inr sp)
        from UPOLS_setup_Inr [OF b ne Inr]
        obtain L n where L: "0 < L" and n: "B ?s1 \<le> n"
          and sp: "sp = upols_built (?s1\<lparr>partition_sz := Some L, NFFT := Some (int n)\<rparr>) hv L n"
          by blast
        have rdy: "upols_ready sp n \<and> \<not> flagIRchanged sp"
          unfolding sp using n ne L by (intro upols_built_ready) simp_all
        have "UPOLS ?s1 x (Some hv) = UPOLS sp x (Some hv)"
          using True Inr rdy by (intro UPOLS_flag) simp_all
        then show ?thesis using True Inr rdy sp by auto
      qed
    qed
    then obtain sp n where sp: "(if flagIRchanged ?s1 then UPOLS_setup ?s1 (Some hv) else Inr ?s1) = Inr sp"
      and fl: "\<not> flagIRchanged sp" and rdy: "upols_ready sp n" and bs: "B sp = B s"
      and rs: "ref sp = ref ?s1" and eq: "UPOLS ?s1 x (Some hv) = UPOLS sp x (Some hv)"
      by blast
    have bsp: "0 < B sp" using b bs by simp
    show ?thesis
    proof (cases "fit_slice (B s) x")
      case (Inl e)
      then have "UPOLS sp x (Some hv) = Inl (e, sp\<lparr>input_buffer := rotate (B sp) (input_buffer sp)\<rparr>)"
        using fl rdy bsp bs by (intro UPOLS_err) simp_all
      then show ?thesis using p r Some eq by simp
    next
      case (Inr w)
      then have "UPOLS sp x (Some hv) = emit (upols_after sp w) (upols_block sp w)"
        using fl rdy bsp bs by (intro UPOLS_eq) simp_all
      then have "process s x h = Inr (upols_after sp w, emitted (upols_after sp w) (upols_block sp w))"
        using p Some eq rf rs by (simp add: emit_emitted)
      then show ?thesis using r Some ne sp fl rdy bs Inr by auto
    qed
  qed
qed

lemma init_ok:
  assumes "init name b h part nflag = Inr s" and "0 < b" and "h \<noteq> Some []"
  shows "engine_ok s"
proof -
  obtain m where m: "parse_method name = Some m"
    using assms(1) by (cases "parse_method name") (simp_all add: init_def)
  show ?thesis
    using assms m
    by (cases m; cases part; cases h)
       (auto simp: init_def generate_ref_def engine_ok_def ola_ok_def ols_ok_def upols_ok_def
          ebind_def split: sum.splits)
qed

lemma ola_after_ok:
  assumes ok: "engine_ok s" and m: "method_kind s = OverlapAdd" and h: "stored_h s = Some hv"
    and n2: "2 \<le> run_n s hv"
  shows "engine_ok (ola_after s hv x)"
proof -
  have ne: "hv \<noteq> []" using ok h by (simp add: engine_ok_def)
  have ola: "ola_ok s" using ok m by (simp add: engine_ok_def)
  have bn: "B s \<le> run_n s hv" using ola ne by (intro run_n_lower) simp_all
  have lc: "length (carry_before s (run_n s hv)) = run_n s hv"
    using ola by (auto simp: carry_before_def run_n_def ola_ok_def split: option.splits)
  have "length (left_overs (ola_after s hv x)) = run_n s hv"
    using bn lc by (simp add: ola_after_def ola_y_def)
  then have "ola_ok (ola_after s hv x)"
    using n2 bn h by (simp add: ola_ok_def fresh_H_def) (simp add: ola_after_def)
  then show ?thesis using ok m h by (simp add: engine_ok_def)
qed

lemma ols_after_ok:
  assumes ok: "engine_ok s" and m: "method_kind s = OverlapSave" and h: "stored_h s = Some hv"
    and w: "length w = B s"
  shows "engine_ok (ols_after s hv w)"
proof -
  have ne: "hv \<noteq> []" using ok h by (simp add: engine_ok_def)
  have ols: "ols_ok s" using ok m by (simp add: engine_ok_def)
  have bn: "B s \<le> run_n s hv" using ols ne by (intro run_n_lower) simp_all
  have lc: "length (ols_before s (run_n s hv)) = run_n s hv"
    using ols by (auto simp: ols_before_def run_n_def ols_ok_def split: option.splits)
  have "ols_ok (ols_after s hv w)"
    using bn lc h w by (simp add: ols_ok_def fresh_H_def)
  then show ?thesis using ok m h by (simp add: engine_ok_def)
qed

lemma upols_after_ok:
  assumes ok: "engine_ok s" and m: "method_kind sp = Upols" and rdy: "upols_ready sp n"
    and w: "length w = B sp" and same: "B sp = B s" "stored_h sp = stored_h s" "ref sp = ref s"
    and h: "stored_h s = Some hv" and fl: "\<not> flagIRchanged sp"
  shows "engine_ok (upols_after sp w)"
proof -
  have "upols_ready (upols_after sp w) n" using rdy w by (rule upols_after_ready)
  then have "upols_ok (upols_after sp w)" by (auto simp: upols_ok_def)
  then show ?thesis using ok m same h by (simp add: engine_ok_def)
qed

lemma UPOLS_prep_same:
  assumes "(if flagIRchanged s then UPOLS_setup s (Some hv) else Inr s) = Inr sp"
    and "0 < B s" and "hv \<noteq> []"
  shows "stored_h sp = stored_h s \<and> ref sp = ref s \<and> method_kind sp = method_kind s
         \<and> normalize_flag sp = normalize_flag s"
proof (cases "flagIRchanged s")
  case True
  then have "UPOLS_setup s (Some hv) = Inr sp" using assms by simp
  from UPOLS_setup_Inr [OF assms(2,3) this] show ?thesis by auto
next
  case False
  then show ?thesis using assms by simp
qed

lemma upols_built_FDL: "\<exists>k. FDL (upols_built s hv L n) = replicate k (replicate n 0)"
  unfolding upols_built_def Let_def by (simp del: replicate.simps)

lemma UPOLS_prep_buffers:
  assumes "(if flagIRchanged s then UPOLS_setup s (Some hv) else Inr s) = Inr sp"
    and "0 < B s" and "hv \<noteq> []" and "upols_ready sp n"
  shows "\<exists>k. input_buffer sp = (if flagIRchanged s then replicate n 0 else input_buffer s)
           \<and> FDL sp = (if flagIRchanged s then replicate k (replicate n 0) else FDL s)"
proof (cases "flagIRchanged s")
  case True
  then have "UPOLS_setup s (Some hv) = Inr sp" using assms by simp
  from UPOLS_setup_Inr [OF assms(2,3) this]
  obtain L n' where sp: "sp = upols_built (s\<lparr>partition_sz := Some L, NFFT := Some (int n')\<rparr>) hv L n'"
    by blast
  have "NFFT sp = Some (int n')" unfolding sp by simp
  then have n: "n' = n" using assms(4) by (simp add: upols_ready_def)
  obtain k where "FDL sp = replicate k (replicate n 0)"
    using upols_built_FDL [of "s\<lparr>partition_sz := Some L, NFFT := Some (int n')\<rparr>" hv L n'] sp n by auto
  moreover have "input_buffer sp = replicate n 0" using sp n by simp
  ultimately show ?thesis using True by auto
next
  case False
  then show ?thesis using assms by auto
qed

lemma process_preserves_ok:
  assumes ok: "engine_ok s" and h: "h \<noteq> Some []" and r: "process s x h = Inr (s', out)"
  shows "engine_ok s'"
proof -
  let ?s1 = "update_ir s h"
  have ok1: "engine_ok ?s1" using ok h by (rule update_ir_ok)
  show ?thesis
  proof (cases "method_kind s")
    case OverlapAdd
    from process_OLA_Inr [OF ok h OverlapAdd r]
    obtain hv where "stored_h ?s1 = Some hv" "2 \<le> run_n ?s1 hv" "s' = ola_after ?s1 hv x"
      by blast
    then show ?thesis using ok1 OverlapAdd by (simp add: ola_after_ok)
  next
    case OverlapSave
    from process_OLS_Inr [OF ok h OverlapSave r]
    obtain hv w where hv: "stored_h ?s1 = Some hv" and w: "fit_slice (B s) x = Inr w"
      and s': "s' = ols_after ?s1 hv w" by blast
    have "length w = B s" using w by (rule fit_slice_length)
    then show ?thesis using ok1 OverlapSave hv s' by (simp add: ols_after_ok)
  next
    case Upols
    from process_UPOLS_Inr [OF ok h Upols r]
    obtain hv sp n w where hv: "stored_h ?s1 = Some hv" "hv \<noteq> []"
      and sp: "(if flagIRchanged ?s1 then UPOLS_setup ?s1 (Some hv) else Inr ?s1) = Inr sp"
      and fl: "\<not> flagIRchanged sp" and rdy: "upols_ready sp n" and bs: "B sp = B s"
      and w: "fit_slice (B s) x = Inr w" and s': "s' = upols_after sp w" by blast
    have b: "0 < B ?s1" using ok1 by (simp add: engine_ok_def)
    have lw: "length w = B s" using w by (rule fit_slice_length)
    from UPOLS_prep_same [OF sp b hv(2)]
    have same: "stored_h sp = stored_h ?s1" "ref sp = ref ?s1" "method_kind sp = Upols"
      using Upols by simp_all
    show ?thesis unfolding s'
      using ok1 same rdy lw bs hv(1) fl
      by (intro upols_after_ok [where s = ?s1 and n = n and hv = hv]) simp_all
  qed
qed

lemma upols_built_H [simp]:
  "H_upols (upols_built s hv L n) =
     map (\<lambda>m. rdft (resize n (h_pad hv L (B s) m))) [0..<(length hv + L - 1) div L]"
  by (simp add: upols_built_def Let_def)

lemma length_emitted [simp]: "length (emitted s out) = length out"
  by (simp add: emitted_def)

lemma length_ola_block:
  assumes "ola_ok s" and "hv \<noteq> []"
  shows "length (ola_block s hv x) = B s"
proof -
  have bn: "B s \<le> run_n s hv" using assms by (intro run_n_lower) simp_all
  have "length (carry_before s (run_n s hv)) = run_n s hv"
    using assms(1) by (auto simp: carry_before_def run_n_def ola_ok_def split: option.splits)
  then show ?thesis using bn by (simp add: ola_block_def ola_y_def)
qed

lemma length_ols_block:
  assumes "ols_ok s" and "hv \<noteq> []" and "length w = B s" and "0 < B s"
  shows "length (ols_block s hv w) = B s"
proof -
  have bn: "B s \<le> run_n s hv" using assms by (intro run_n_lower) simp_all
  have "length (ols_before s (run_n s hv)) = run_n s hv"
    using assms(1) by (auto simp: ols_before_def run_n_def ols_ok_def split: option.splits)
  then show ?thesis using bn assms(3,4) by (simp add: ols_block_def py_last_def)
qed

lemma length_upols_block:
  assumes rdy: "upols_ready s n" and w: "length w = B s" and b: "0 < B s"
  shows "length (upols_block s w) = B s"
proof -
  let ?F = "FDL (upols_after s w)"
  have r': "upols_ready (upols_after s w) n" using rdy w by (rule upols_after_ready)
  obtain i0 nms where nm: "nm s = i0 # nms" using rdy by (cases "nm s") (auto simp: upols_ready_def)
  obtain h0 hs where H: "H_upols s = h0 # hs" using rdy by (cases "H_upols s") (auto simp: upols_ready_def)
  from r' have "list_all (\<lambda>i. i < length ?F) (nm (upols_after s w))"
    and rows: "list_all (\<lambda>row. length row = n) ?F"
    unfolding upols_ready_def by blast+
  then have "i0 < length ?F" using nm by simp
  then have "?F ! i0 \<in> set ?F" by (rule nth_mem)
  then have "length (?F ! i0) = n" using rows unfolding list_all_iff by blast
  moreover have "length h0 = n" using rdy H by (simp add: upols_ready_def)
  ultimately have "length (hd (map2 (map2 (*)) (map (\<lambda>i. ?F ! i) (nm s)) (H_upols s))) = n"
    using nm H by simp
  moreover have "B s \<le> n" using rdy by (simp add: upols_ready_def)
  ultimately show ?thesis using b by (simp add: upols_block_def py_last_def)
qed

lemma process_facts:
  assumes ok: "engine_ok s" and h: "h \<noteq> Some []" and r: "process s x h = Inr (s', out)"
  shows "\<exists>block. out = emitted s' block \<and> length block = B s
           \<and> stored_h s' = stored_h (update_ir s h) \<and> ref s' = ref (update_ir s h)
           \<and> normalize_flag s' = normalize_flag s \<and> method_kind s' = method_kind s
           \<and> B s' = B s"
proof -
  let ?s1 = "update_ir s h"
  have ok1: "engine_ok ?s1" using ok h by (rule update_ir_ok)
  show ?thesis
  proof (cases "method_kind s")
    case OverlapAdd
    from process_OLA_Inr [OF ok h OverlapAdd r]
    obtain hv where hv: "stored_h ?s1 = Some hv" "hv \<noteq> []" and s': "s' = ola_after ?s1 hv x"
      and o: "out = emitted s' (ola_block ?s1 hv x)" by blast
    have "ola_ok ?s1" using ok1 OverlapAdd by (simp add: engine_ok_def)
    then have "length (ola_block ?s1 hv x) = B s" using hv(2) length_ola_block by fastforce
    then show ?thesis using o s' by auto
  next
    case OverlapSave
    from process_OLS_Inr [OF ok h OverlapSave r]
    obtain hv w where hv: "stored_h ?s1 = Some hv" "hv \<noteq> []" and w: "fit_slice (B s) x = Inr w"
      and s': "s' = ols_after ?s1 hv w" and o: "out = emitted s' (ols_block ?s1 hv w)" by blast
    have "ols_ok ?s1" "0 < B ?s1" using ok1 OverlapSave by (simp_all add: engine_ok_def)
    moreover have "length w = B ?s1" using w fit_slice_length by fastforce
    ultimately have "length (ols_block ?s1 hv w) = B ?s1" using hv(2) by (intro length_ols_block)
    then show ?thesis using o s' by auto
  next
    case Upols
    from process_UPOLS_Inr [OF ok h Upols r]
    obtain hv sp n w where hv: "stored_h ?s1 = Some hv" "hv \<noteq> []"
      and sp: "(if flagIRchanged ?s1 then UPOLS_setup ?s1 (Some hv) else Inr ?s1) = Inr sp"
      and rdy: "upols_ready sp n" and bs: "B sp = B s"
      and w: "fit_slice (B s) x = Inr w" and s': "s' = upols_after sp w"
      and o: "out = emitted s' (upols_block sp w)" by blast
    have b: "0 < B ?s1" using ok1 by (simp add: engine_ok_def)
    have lw: "length w = B sp" using w bs fit_slice_length by fastforce
    have "length (upols_block sp w) = B sp" using rdy lw b bs by (intro length_upols_block) simp_all
    moreover note UPOLS_prep_same [OF sp b hv(2)]
    ultimately show ?thesis using o s' bs by auto
  qed
qed

lemma float_div_zero: "\<not> is_finite (float_div v 0)"
  by (simp add: float_div_def)

lemma sum_abs_zero: "list_all (\<lambda>v. v = 0) hv \<Longrightarrow> sum_list (map abs hv) = (0::real)"
  by (induction hv) auto

lemma init_ols_zero_demo:
  "init ''ols'' 2 (Some [0, 0]) None True =
     Inr \<lparr>method_kind = OverlapSave, B = 2, NFFT = None, flagIRchanged = True,
          stored_h = Some [0, 0], ref = Some 0, left_overs = [0, 0], len_y_left = 0,
          partition_sz = None, normalize_flag = True, H = [], H_upols = [],
          OLS_input_buffer = [], input_buffer = [], P = 0, nm = [], FDL = []\<rparr>"
  by (simp add: init_def parse_method_simps generate_ref_def numeral_2_eq_2)

lemma cconv_demo_zero: "cconv [0, 1, 2] [0, 0, 0] = [0, 0, 0]"
  by (simp add: cconv_def cconv_coeff_def upt_rec)

lemma init_fields:
  assumes "init name b h part nflag = Inr s"
  shows "B s = b \<and> stored_h s = h \<and> flagIRchanged s \<and> normalize_flag s = nflag
         \<and> (part \<noteq> None \<longrightarrow> partition_sz s = part \<and> NFFT s = None)
         \<and> (method_kind s \<noteq> Upols \<longrightarrow> partition_sz s = part \<and> NFFT s = None)
         \<and> parse_method name = Some (method_kind s)"
proof -
  obtain m where m: "parse_method name = Some m"
    using assms by (cases "parse_method name") (simp_all add: init_def)
  show ?thesis
    using assms m
    by (cases m; cases part; cases h)
       (auto simp: init_def generate_ref_def ebind_def split: sum.splits)
qed

lemma resize_pad_the_end:
  assumes "L \<le> n"
  shows "resize n (pad_the_end hv L) = resize n hv"
proof (cases "length hv < L")
  case True
  then have "resize n (pad_the_end hv L) = hv @ replicate (L - length hv) 0 @ replicate (n - L) 0"
    using assms by (simp add: resize_def pad_the_end_def)
  also have "\<dots> = hv @ replicate (n - length hv) 0"
    using True assms by (simp add: replicate_add [symmetric])
  also have "\<dots> = resize n hv" using True assms by (simp add: resize_def)
  finally show ?thesis .
next
  case False
  then show ?thesis by (simp add: pad_the_end_def)
qed

lemma one_partition:
  assumes "hv \<noteq> []" and "length hv < L"
  shows "(length hv + L - 1) div L = 1"
proof -
  have "0 < length hv" using assms(1) by (cases hv) simp_all
  then have e: "length hv + L - 1 = L + (length hv - 1)" by linarith
  have "length hv - 1 < L" using assms(2) by linarith
  then show ?thesis unfolding e by simp
qed

lemma fit_slice_Inl: "fit_slice m x = Inl e \<longleftrightarrow> e = ValueError \<and> length x \<noteq> m \<and> length x \<noteq> 1"
  by (auto simp: fit_slice_def)

lemma OLS_err:
  assumes ok: "ols_ok s" and b: "0 < B s" and h: "stored_h s = Some hv" and ne: "hv \<noteq> []"
    and w: "fit_slice (B s) x = Inl e"
  shows "OLS s x (Some hv) =
           Inl (e, s\<lparr>NFFT := Some (int (run_n s hv)),
                     OLS_input_buffer := rotate (B s) (ols_before s (run_n s hv))\<rparr>)"
proof (cases "NFFT s")
  case None
  let ?n = "B s + length hv - 1"
  let ?s1 = "s\<lparr>NFFT := Some (int ?n), OLS_input_buffer := replicate ?n 0\<rparr>"
  have rn: "run_n s hv = ?n" using None by (simp add: run_n_def)
  have l: "0 < length hv" using ne by (cases hv) simp_all
  have fl: "flagIRchanged s" using ok None by (simp add: ols_ok_def)
  have bn: "B s \<le> ?n" using l by linarith
  have "OLS s x (Some hv) = OLS ?s1 x (Some hv)"
    using None ne by (rule OLS_first)
  also have "\<dots> = (case fit_slice (B ?s1) x of
              Inl e \<Rightarrow> Inl (e, ?s1\<lparr>OLS_input_buffer := rotate (B ?s1) (OLS_input_buffer ?s1)\<rparr>)
            | Inr w \<Rightarrow>
                emit (?s1\<lparr>OLS_input_buffer := drop (B ?s1) (OLS_input_buffer ?s1) @ w,
                        H := rdft (resize ?n hv), flagIRchanged := False\<rparr>)
                     (py_last (B ?s1) (cconv (drop (B ?s1) (OLS_input_buffer ?s1) @ w) (resize ?n hv))))"
    using b h fl bn by (intro OLS_call) simp_all
  finally show ?thesis using None w by (simp add: rn ols_before_def)
next
  case (Some kk)
  have "0 \<le> kk" using ok Some by (simp add: ols_ok_def)
  then obtain n where kn: "kk = int n" using nonneg_int_cases by blast
  have Some: "NFFT s = Some (int n)" using Some kn by simp
  have rn: "run_n s hv = n" using Some by (simp add: run_n_def)
  have k: "length (OLS_input_buffer s) = n" "B s \<le> n"
    "flagIRchanged s \<or> H s = rdft (resize n hv)"
    using ok Some h by (auto simp: ols_ok_def fresh_H_def)
  have eq: "s\<lparr>NFFT := Some (int n)\<rparr> = s" using Some by simp
  have "OLS s x (Some hv) = (case fit_slice (B s) x of
              Inl e \<Rightarrow> Inl (e, s\<lparr>OLS_input_buffer := rotate (B s) (OLS_input_buffer s)\<rparr>)
            | Inr w \<Rightarrow>
                emit (s\<lparr>OLS_input_buffer := drop (B s) (OLS_input_buffer s) @ w,
                        H := rdft (resize n hv), flagIRchanged := False\<rparr>)
                     (py_last (B s) (cconv (drop (B s) (OLS_input_buffer s) @ w) (resize n hv))))"
    using Some k b h by (intro OLS_call) simp_all
  then show ?thesis using Some w by (simp add: rn ols_before_def eq)
qed

lemma UPOLS_prep:
  assumes up: "upols_ok s" and b: "0 < B s" and ne: "hv \<noteq> []"
    and sp: "(if flagIRchanged s then UPOLS_setup s (Some hv) else Inr s) = Inr sp"
  shows "\<not> flagIRchanged sp \<and> (\<exists>n. upols_ready sp n) \<and> B sp = B s
         \<and> UPOLS s x (Some hv) = UPOLS sp x (Some hv)"
proof (cases "flagIRchanged s")
  case False
  then show ?thesis using up sp by (auto simp: upols_ok_def)
next
  case True
  then have su: "UPOLS_setup s (Some hv) = Inr sp" using sp by simp
  from UPOLS_setup_Inr [OF b ne su]
  obtain L n where L: "0 < L" and n: "B s \<le> n"
    and e: "sp = upols_built (s\<lparr>partition_sz := Some L, NFFT := Some (int n)\<rparr>) hv L n"
    by blast
  have rdy: "upols_ready sp n \<and> \<not> flagIRchanged sp"
    unfolding e using n ne L by (intro upols_built_ready) simp_all
  have "UPOLS s x (Some hv) = UPOLS sp x (Some hv)"
    using True su rdy by (intro UPOLS_flag) simp_all
  then show ?thesis using rdy e by auto
qed


lemma process_OLA_eq:
  assumes ok: "engine_ok s" and h: "h \<noteq> Some []" and m: "method_kind s = OverlapAdd"
    and hv: "stored_h (update_ir s h) = Some hv" and n1: "run_n (update_ir s h) hv \<noteq> 1"
  shows "process s x h =
           Inr (ola_after (update_ir s h) hv x,
                emitted (ola_after (update_ir s h) hv x) (ola_block (update_ir s h) hv x))"
proof -
  let ?s1 = "update_ir s h"
  have ok1: "engine_ok ?s1" using ok h by (rule update_ir_ok)
  have ola: "ola_ok ?s1" and b: "0 < B ?s1" using ok1 m by (simp_all add: engine_ok_def)
  have ne: "hv \<noteq> []" and rf: "ref ?s1 \<noteq> None" using ok1 hv by (simp_all add: engine_ok_def)
  have "process s x h = OLA ?s1 x (Some hv)" using m hv by (simp add: process_def Let_def)
  also have "\<dots> = emit (ola_after ?s1 hv x) (ola_block ?s1 hv x)"
    using ola b hv ne n1 by (rule OLA_eq)
  finally show ?thesis using rf by (simp add: emit_emitted)
qed

lemma process_OLS_err:
  assumes ok: "engine_ok s" and h: "h \<noteq> Some []" and m: "method_kind s = OverlapSave"
    and hv: "stored_h (update_ir s h) = Some hv" and w: "fit_slice (B s) x = Inl e"
  shows "process s x h =
           Inl (e, (update_ir s h)\<lparr>NFFT := Some (int (run_n (update_ir s h) hv)),
                     OLS_input_buffer := rotate (B s) (ols_before s (run_n (update_ir s h) hv))\<rparr>)"
proof -
  let ?s1 = "update_ir s h"
  have ok1: "engine_ok ?s1" using ok h by (rule update_ir_ok)
  have ols: "ols_ok ?s1" and b: "0 < B ?s1" using ok1 m by (simp_all add: engine_ok_def)
  have ne: "hv \<noteq> []" using ok1 hv by (simp add: engine_ok_def)
  have cb: "ols_before ?s1 (run_n ?s1 hv) = ols_before s (run_n ?s1 hv)"
    by (simp add: ols_before_def split: option.splits)
  have "process s x h = OLS ?s1 x (Some hv)" using m hv by (simp add: process_def Let_def)
  also have "\<dots> = Inl (e, ?s1\<lparr>NFFT := Some (int (run_n ?s1 hv)),
                     OLS_input_buffer := rotate (B ?s1) (ols_before ?s1 (run_n ?s1 hv))\<rparr>)"
    using ols b hv ne w by (intro OLS_err) simp_all
  finally show ?thesis using cb by simp
qed

lemma process_UPOLS_err:
  assumes ok: "engine_ok s" and h: "h \<noteq> Some []" and m: "method_kind s = Upols"
    and hv: "stored_h (update_ir s h) = Some hv" and w: "fit_slice (B s) x = Inl e"
    and sp: "(if flagIRchanged (update_ir s h) then UPOLS_setup (update_ir s h) (Some hv)
              else Inr (update_ir s h)) = Inr sp"
  shows "process s x h = Inl (e, sp\<lparr>input_buffer := rotate (B s) (input_buffer sp)\<rparr>)"
proof -
  let ?s1 = "update_ir s h"
  have ok1: "engine_ok ?s1" using ok h by (rule update_ir_ok)
  have up: "upols_ok ?s1" and b: "0 < B ?s1" using ok1 m by (simp_all add: engine_ok_def)
  have ne: "hv \<noteq> []" using ok1 hv by (simp add: engine_ok_def)
  from UPOLS_prep [OF up b ne sp, of x]
  obtain n where fl: "\<not> flagIRchanged sp" and rdy: "upols_ready sp n" and bs: "B sp = B s"
    and eq: "UPOLS ?s1 x (Some hv) = UPOLS sp x (Some hv)" by auto
  have "process s x h = UPOLS ?s1 x (Some hv)" using m hv by (simp add: process_def Let_def)
  also have "\<dots> = UPOLS sp x (Some hv)" by (rule eq)
  also have "\<dots> = Inl (e, sp\<lparr>input_buffer := rotate (B sp) (input_buffer sp)\<rparr>)"
    using fl rdy b bs w by (intro UPOLS_err) simp_all
  finally show ?thesis using bs by simp
qed

lemma init_ola_demo: "init ''ola'' 2 (Some [1, 1]) None False = Inr ola_demo"
  by (simp add: ola_demo_def init_def parse_method_simps generate_ref_def numeral_2_eq_2)

lemma init_ols_demo': "init ''ols'' 2 (Some [1, 1]) None False = Inr ols_demo"
  by (simp add: ols_demo_def init_def parse_method_simps generate_ref_def numeral_2_eq_2)

lemma cconv_demo_123: "cconv [1, 2, 3] [1, 1, 0] = [4, 3, 5]"
  by (simp add: cconv_def cconv_coeff_def upt_rec)

lemma ola_demo_long_block:
  "process ola_demo [1, 2, 3] None =
     Inr (ola_demo\<lparr>NFFT := Some 3, len_y_left := 1, H := rdft [1, 1, 0],
                   flagIRchanged := False, left_overs := [5, 0, 0]\<rparr>,
          [Finite 4, Finite 3])"
proof -
  have ok: "engine_ok ola_demo" using init_ola_demo by (rule init_ok) simp_all
  have n: "None \<noteq> Some ([] :: real list)" by simp
  have m: "method_kind ola_demo = OverlapAdd" by (simp add: ola_demo_def)
  have hv: "stored_h (update_ir ola_demo None) = Some [1, 1]" by (simp add: ola_demo_def)
  have rn: "run_n ola_demo [1, 1] = 3" by (simp add: run_n_def ola_demo_def)
  have y: "ola_y ola_demo [1, 1] [1, 2, 3] = [4, 3, 5]"
    by (simp add: ola_y_def rn resize_def cconv_demo_123)
  have cb: "carry_before ola_demo 3 = [0, 0, 0]"
    by (simp add: carry_before_def ola_demo_def numeral_3_eq_3)
  have b: "B ola_demo = 2" by (simp add: ola_demo_def)
  have a: "ola_after ola_demo [1, 1] [1, 2, 3] =
      ola_demo\<lparr>NFFT := Some 3, len_y_left := 1, H := rdft [1, 1, 0],
                   flagIRchanged := False, left_overs := [5, 0, 0]\<rparr>"
    by (simp add: ola_after_def rn y cb b resize_def numeral_2_eq_2)
  have k: "ola_block ola_demo [1, 1] [1, 2, 3] = [4, 3]"
    by (simp add: ola_block_def rn y cb b numeral_2_eq_2)
  have e: "emitted (ola_after ola_demo [1, 1] [1, 2, 3]) [4, 3] = [Finite 4, Finite 3]"
    by (simp add: emitted_def ola_demo_def)
  show ?thesis
    using process_OLA_eq [OF ok n m hv, of "[1, 2, 3]"] rn a k e by simp
qed

lemma ols_demo_long_block:
  "process ols_demo [1, 2, 3] None =
     Inl (ValueError, ols_demo\<lparr>NFFT := Some 3, OLS_input_buffer := [0, 0, 0]\<rparr>)"
proof -
  have ok: "engine_ok ols_demo" using init_ols_demo' by (rule init_ok) simp_all
  have n: "None \<noteq> Some ([] :: real list)" by simp
  have m: "method_kind ols_demo = OverlapSave" by (simp add: ols_demo_def)
  have hv: "stored_h (update_ir ols_demo None) = Some [1, 1]" by (simp add: ols_demo_def)
  have rn: "run_n ols_demo [1, 1] = 3" by (simp add: run_n_def ols_demo_def)
  have w: "fit_slice (B ols_demo) [1, 2, 3 :: real] = Inl ValueError"
    by (simp add: fit_slice_def ols_demo_def)
  have r: "rotate (B ols_demo) (ols_before ols_demo 3) = [0, 0, 0]"
    by (simp add: ols_before_def ols_demo_def numeral_3_eq_3 numeral_2_eq_2)
  show ?thesis
    using process_OLS_err [OF ok n m hv w] rn r by simp
qed

lemma map2_map_map:
  "map2 f (map g xs) (map h ys) = map2 (\<lambda>a b. f (g a) (h b)) xs ys"
proof (induction xs arbitrary: ys)
  case Nil
  then show ?case by simp
next
  case (Cons x xs)
  then show ?case by (cases ys) simp_all
qed

lemma upols_block_cconv:
  assumes F: "FDL (upols_after s w) = map rdft hist"
    and H: "H_upols s = map rdft hps"
    and hl: "list_all (\<lambda>a. length a = n) hist" and pl: "list_all (\<lambda>b. length b = n) hps"
    and idx: "list_all (\<lambda>i. i < length hist) (nm s)"
    and ne: "nm s \<noteq> []" "hps \<noteq> []"
  shows "upols_block s w =
           py_last (B s) (sum_rows n (map2 cconv (map (\<lambda>i. hist ! i) (nm s)) hps))"
proof -
  let ?sel = "map (\<lambda>i. hist ! i) (nm s)"
  let ?prod = "map2 (map2 (*)) (map (\<lambda>i. FDL (upols_after s w) ! i) (nm s)) (H_upols s)"
  have sel: "map (\<lambda>i. FDL (upols_after s w) ! i) (nm s) = map rdft ?sel"
  proof -
    have "FDL (upols_after s w) ! i = rdft (hist ! i)" if "i \<in> set (nm s)" for i
    proof -
      have "i < length hist" using idx that by (simp add: list_all_iff)
      then show ?thesis by (simp only: F nth_map)
    qed
    then show ?thesis by (simp del: upols_after_fields)
  qed
  have sl: "list_all (\<lambda>a. length a = n) ?sel"
    using idx hl by (simp add: list_all_iff)
  have prod: "?prod = map (\<lambda>(a, b). map2 (*) (rdft a) (rdft b)) (zip ?sel hps)"
    unfolding sel H by (rule map2_map_map)
  have zl: "\<forall>(a, b) \<in> set (zip ?sel hps). length a = n \<and> length b = n"
  proof (clarify)
    fix a b assume ab: "(a, b) \<in> set (zip ?sel hps)"
    then have "a \<in> set ?sel" "b \<in> set hps"
      by (rule set_zip_leftD, rule set_zip_rightD)
    then show "length a = n \<and> length b = n"
      using sl pl unfolding list_all_iff by blast
  qed
  have pne: "?prod \<noteq> []" using ne unfolding prod by (cases "nm s"; cases hps) simp_all
  have plen: "\<forall>r\<in>set ?prod. length r = n" unfolding prod using zl by auto
  have "map Re (idft (sum_axis0 ?prod)) = sum_rows n (map (\<lambda>r. map Re (idft r)) ?prod)"
    using pne plen by (rule idft_sum_axis0)
  also have "map (\<lambda>r. map Re (idft r)) ?prod = map (\<lambda>(a, b). cconv a b) (zip ?sel hps)"
    unfolding prod using zl by (auto simp: rdft_mult_idft)
  finally show ?thesis by (simp add: upols_block_def del: upols_after_fields)
qed

section \<open>What a call keeps, and example calls\<close>

lemma fft_conv_Inr:
  assumes "fft_conv s x = Inr (s', y)"
  shows "\<not> flagIRchanged s' \<and> (\<not> flagIRchanged s \<longrightarrow> s' = s) \<and> H_upols s' = H_upols s"
  using assms
  by (auto simp: fft_conv_def Let_def ebind_def raise_in_def
      split: sum.splits if_splits option.splits)

lemma OLS_setup_keeps:
  assumes "OLS_setup s h = Inr s1"
  shows "H s1 = H s \<and> H_upols s1 = H_upols s \<and> flagIRchanged s1 = flagIRchanged s"
  using assms by (auto simp: OLS_setup_def Let_def split: option.splits if_splits)

lemma OLA_setup_keeps:
  assumes "OLA_setup s h = Inr s1"
  shows "H s1 = H s \<and> H_upols s1 = H_upols s \<and> flagIRchanged s1 = flagIRchanged s"
  using assms by (auto simp: OLA_setup_def Let_def split: option.splits if_splits)

lemma ebind_Inr: "ebind m f = Inr r \<Longrightarrow> \<exists>v. m = Inr v \<and> f v = Inr r"
  by (cases m) (simp_all add: ebind_def)

lemma raise_in_Inr: "raise_in s m = Inr v \<longleftrightarrow> m = Inr v"
  by (cases m) (simp_all add: raise_in_def)

lemma OLS_keeps:
  assumes r: "OLS s x h = Inr (s', out)"
  shows "\<not> flagIRchanged s' \<and> (\<not> flagIRchanged s \<longrightarrow> H s' = H s) \<and> H_upols s' = H_upols s"
proof -
  from r [unfolded OLS_def] obtain s1 where
    s1: "(case NFFT s of None \<Rightarrow> OLS_setup s h | Some n \<Rightarrow> Inr s) = Inr s1"
    and r1: "(let s2 = s1\<lparr>OLS_input_buffer := rotate (B s1) (OLS_input_buffer s1)\<rparr> in
     ebind (raise_in s2 (set_last (B s2) (OLS_input_buffer s2) x)) (\<lambda>buf.
     let s3 = s2\<lparr>OLS_input_buffer := buf\<rparr> in
     ebind (fft_conv s3 buf) (\<lambda>(s4, out).
     emit s4 (py_last (B s4) out)))) = Inr (s', out)"
    by (blast dest: ebind_Inr)
  have k1: "H s1 = H s \<and> H_upols s1 = H_upols s \<and> flagIRchanged s1 = flagIRchanged s"
    using s1 OLS_setup_keeps [of s h s1] by (cases "NFFT s") auto
  let ?s2 = "s1\<lparr>OLS_input_buffer := rotate (B s1) (OLS_input_buffer s1)\<rparr>"
  from r1 obtain buf where
    r2: "ebind (fft_conv (?s2\<lparr>OLS_input_buffer := buf\<rparr>) buf) (\<lambda>(s4, out).
     emit s4 (py_last (B s4) out)) = Inr (s', out)"
    unfolding Let_def by (blast dest: ebind_Inr)
  then obtain s4 y where fc: "fft_conv (?s2\<lparr>OLS_input_buffer := buf\<rparr>) buf = Inr (s4, y)"
    and e: "emit s4 (py_last (B s4) y) = Inr (s', out)"
    by (auto dest!: ebind_Inr)
  have "s' = s4" using emit_Inr [OF e] by simp
  then show ?thesis using fft_conv_Inr [OF fc] k1 by auto
qed

lemma OLA_keeps:
  assumes r: "OLA s x h = Inr (s', out)"
  shows "\<not> flagIRchanged s' \<and> (\<not> flagIRchanged s \<longrightarrow> H s' = H s) \<and> H_upols s' = H_upols s"
proof -
  from r [unfolded OLA_def] obtain s1 where
    s1: "(case NFFT s of None \<Rightarrow> OLA_setup s h | Some n \<Rightarrow> Inr s) = Inr s1"
    and r1: "ebind (fft_conv s1 x) (\<lambda>(s2, y).
     if NFFT s2 = Some 1 then Inl (IndexError, s2)
     else
     ebind (raise_in s2 (np_binop (+) (take (B s2) y) (take (B s2) (left_overs s2)))) (\<lambda>out.
     let rolled = rotate (B s2) (left_overs s2);
         s3 = s2\<lparr>left_overs := rolled\<rparr>;
         m = length (py_last (B s3) rolled);
         flushed = take (length rolled - m) rolled @ replicate m 0;
         s4 = s3\<lparr>left_overs := flushed\<rparr>
     in
     ebind (raise_in s4 (np_binop (+) (py_take (len_y_left s4) flushed) (drop (B s4) y))) (\<lambda>added.
     ebind (raise_in s4 (set_first (len_y_left s4) flushed added)) (\<lambda>carried.
     emit (s4\<lparr>left_overs := carried\<rparr>) out)))) = Inr (s', out)"
    by (blast dest: ebind_Inr)
  have k1: "H s1 = H s \<and> H_upols s1 = H_upols s \<and> flagIRchanged s1 = flagIRchanged s"
    using s1 OLA_setup_keeps [of s h s1] by (cases "NFFT s") auto
  from r1 obtain s2 y where fc: "fft_conv s1 x = Inr (s2, y)"
    and r2: "(if NFFT s2 = Some 1 then Inl (IndexError, s2)
     else
     ebind (raise_in s2 (np_binop (+) (take (B s2) y) (take (B s2) (left_overs s2)))) (\<lambda>out.
     let rolled = rotate (B s2) (left_overs s2);
         s3 = s2\<lparr>left_overs := rolled\<rparr>;
         m = length (py_last (B s3) rolled);
         flushed = take (length rolled - m) rolled @ replicate m 0;
         s4 = s3\<lparr>left_overs := flushed\<rparr>
     in
     ebind (raise_in s4 (np_binop (+) (py_take (len_y_left s4) flushed) (drop (B s4) y))) (\<lambda>added.
     ebind (raise_in s4 (set_first (len_y_left s4) flushed added)) (\<lambda>carried.
     emit (s4\<lparr>left_overs := carried\<rparr>) out)))) = Inr (s', out)"
    by (auto dest!: ebind_Inr)
  from r2 obtain lo where "s' = s2\<lparr>left_overs := lo\<rparr>"
    by (auto simp: Let_def split: if_splits dest!: ebind_Inr emit_Inr)
  then show ?thesis using fft_conv_Inr [OF fc] k1 by auto
qed

lemma UPOLS_setup_flag:
  assumes "UPOLS_setup s h = Inr s1"
  shows "\<not> flagIRchanged s1"
  using assms
  by (auto simp: UPOLS_setup_def Let_def split: option.splits if_splits prod.splits dest!: ebind_Inr)

lemma UPOLS_keeps:
  assumes r: "UPOLS s x h = Inr (s', out)"
  shows "\<not> flagIRchanged s' \<and> (\<not> flagIRchanged s \<longrightarrow> H_upols s' = H_upols s \<and> H s' = H s)"
proof -
  from r [unfolded UPOLS_def] obtain s1 where
    s1: "(if flagIRchanged s then UPOLS_setup s h else Inr s) = Inr s1"
    and r1: "(let s2 = s1\<lparr>input_buffer := rotate (B s1) (input_buffer s1)\<rparr> in
     ebind (raise_in s2 (set_last (B s2) (input_buffer s2) x)) (\<lambda>buf.
     let s3 = s2\<lparr>input_buffer := buf\<rparr>;
         s4 = s3\<lparr>FDL := roll_rows (FDL s3)\<rparr>
     in
     ebind (raise_in s4 (np_fft buf (int (length buf)))) (\<lambda>row.
     let s5 = s4\<lparr>FDL := (FDL s4)[0 := row]\<rparr>;
         prod = map2 (map2 (*)) (map (\<lambda>i. FDL s5 ! i) (nm s5)) (H_upols s5)
     in
     ebind (raise_in s5 (np_ifft_real (sum_axis0 prod))) (\<lambda>out.
     emit s5 (py_last (B s5) out))))) = Inr (s', out)"
    by (blast dest: ebind_Inr)
  have k1: "\<not> flagIRchanged s1 \<and> (\<not> flagIRchanged s \<longrightarrow> s1 = s)"
    using s1 UPOLS_setup_flag [of s h s1] by (auto split: if_splits)
  from r1 obtain ib fd where "s' = s1\<lparr>input_buffer := ib, FDL := fd\<rparr>"
    by (auto simp: Let_def dest!: ebind_Inr emit_Inr)
  then show ?thesis using k1 by auto
qed


lemma fft_conv_reuse:
  assumes "NFFT s = Some (int n)" and "0 < n" and "\<not> flagIRchanged s" and "length (H s) = n"
  shows "fft_conv s x = Inr (s, map Re (idft (map2 (*) (rdft (resize n x)) (H s))))"
proof -
  have "H s \<noteq> []" using assms by auto
  moreover have l: "length (rdft (resize n x)) = n" by simp
  have "rdft (resize n x) \<noteq> []"
    using assms(2) by (metis l list.size(3) less_irrefl)
  ultimately show ?thesis
    using assms by (simp add: fft_conv_def np_fft_def np_binop_def np_ifft_real_def)
qed

lemma cconv_demo_234: "cconv [2, 3, 4] [3, 0, 0] = [6, 9, 12]"
  by (simp add: cconv_def cconv_coeff_def upt_rec)

lemma rdft_demo_ne: "rdft [3, 0, 0] \<noteq> rdft [1, 1, 0]"
proof
  assume "rdft [3, 0, 0] = rdft [1, 1, 0]"
  then have "rdft [3, 0, 0] ! 0 = rdft [1, 1, 0] ! 0" by simp
  then show False by (simp add: rdft_def dft_def dft_coeff_def upt_rec lessThan_Suc numeral_3_eq_3)
qed

lemma ols_stale_block:
  "process ols_stale [3, 4] None =
     Inr (ols_stale\<lparr>OLS_input_buffer := [2, 3, 4]\<rparr>, [Finite 9, Finite 12])"
proof -
  let ?s3 = "ols_stale\<lparr>OLS_input_buffer := [2, 3, 4]\<rparr>"
  have fc: "fft_conv ?s3 [2, 3, 4] =
      Inr (?s3, map Re (idft (map2 (*) (rdft (resize 3 [2, 3, 4])) (H ?s3))))"
    by (rule fft_conv_reuse) (simp_all add: ols_stale_def ols_demo_def)
  have "map Re (idft (map2 (*) (rdft (resize 3 [2, 3, 4])) (H ?s3))) = [6, 9, 12]"
    by (simp add: ols_stale_def resize_def rdft_mult_idft cconv_demo_234)
  then have fc': "fft_conv ?s3 [2, 3, 4] = Inr (?s3, [6, 9, 12])" using fc by simp
  have sl: "set_last 2 (rotate 2 [0, 1, 2]) [3, 4 :: real] = Inr [2, 3, 4]"
    by (simp add: set_last_def py_last_def fit_slice_def numeral_2_eq_2)
  have s3: "ols_stale\<lparr>OLS_input_buffer := rotate 2 [0, 1, 2], OLS_input_buffer := [2, 3, 4]\<rparr> = ?s3"
    by simp
  show ?thesis
    using sl fc'
    by (simp add: process_def OLS_def Let_def ols_stale_def ols_demo_def emit_def py_last_def)
qed

lemma butlast_replicate_Suc: "butlast (replicate (Suc k) z) = replicate k z"
  by (induction k) simp_all

lemma upols_built_FDL_nm:
  "FDL (upols_built s hv L n) =
     replicate (Max (set (nm (upols_built s hv L n))) + 1) (replicate n 0)"
  unfolding upols_built_def Let_def by (simp del: replicate.simps)

lemma process_UPOLS_given:
  assumes ok: "engine_ok s" and h: "h \<noteq> Some []" and m: "method_kind s = Upols"
    and hv: "stored_h (update_ir s h) = Some hv" and f: "flagIRchanged (update_ir s h)"
    and L: "partition_sz s = Some L" "0 < L" and w: "fit_slice (B s) x = Inr w"
  shows "process s x h =
           Inr (upols_after
                  (upols_built ((update_ir s h)\<lparr>NFFT := Some (int (partition_NFFT (B s) L))\<rparr>)
                     hv L (partition_NFFT (B s) L)) w,
                emitted
                  (upols_after
                     (upols_built ((update_ir s h)\<lparr>NFFT := Some (int (partition_NFFT (B s) L))\<rparr>)
                        hv L (partition_NFFT (B s) L)) w)
                  (upols_block
                     (upols_built ((update_ir s h)\<lparr>NFFT := Some (int (partition_NFFT (B s) L))\<rparr>)
                        hv L (partition_NFFT (B s) L)) w))"
proof -
  let ?s1 = "update_ir s h"
  let ?n = "partition_NFFT (B s) L"
  let ?sp = "upols_built (?s1\<lparr>NFFT := Some (int ?n)\<rparr>) hv L ?n"
  have ok1: "engine_ok ?s1" using ok h by (rule update_ir_ok)
  have b: "0 < B s" using ok by (simp add: engine_ok_def)
  have ne: "hv \<noteq> []" and rf: "ref ?s1 \<noteq> None" using ok1 hv by (simp_all add: engine_ok_def)
  have bn: "B s \<le> ?n" using partition_NFFT_bounds [OF b] by simp
  have su: "UPOLS_setup ?s1 (Some hv) = Inr ?sp"
    using UPOLS_setup_given [of ?s1 L hv] L b ne by simp
  have rdy: "upols_ready ?sp ?n \<and> \<not> flagIRchanged ?sp"
    using bn ne L by (intro upols_built_ready) simp_all
  have fs: "fit_slice (B ?sp) x = Inr w" using w by simp
  have "process s x h = UPOLS ?s1 x (Some hv)"
    using m hv by (simp add: process_def Let_def)
  also have "\<dots> = UPOLS ?sp x (Some hv)"
    using f su rdy by (intro UPOLS_flag) simp_all
  also have "\<dots> = emit (upols_after ?sp w) (upols_block ?sp w)"
    using rdy fs b by (intro UPOLS_eq [where n = ?n]) simp_all
  also have "\<dots> = Inr (upols_after ?sp w, emitted (upols_after ?sp w) (upols_block ?sp w))"
    using rf by (intro emit_emitted) simp
  finally show ?thesis .
qed

lemma init_upols_demo: "init ''upols'' 2 (Some [1, 1]) (Some 2) False = Inr upols_demo"
  by (simp add: upols_demo_def init_def parse_method_simps generate_ref_def numeral_2_eq_2)

lemma partition_NFFT_demo: "partition_NFFT 2 2 = 4"
  by (simp add: partition_NFFT_def)


lemma four: "(4 :: nat) = Suc (Suc (Suc (Suc 0)))"
  by simp

lemma upols_built_demo:
  assumes "B s = 2"
  shows "upols_built s [a, b] 2 4 =
           s\<lparr>P := 1, input_buffer := [0, 0, 0, 0], H_upols := [rdft [a, b, 0, 0]], nm := [0],
             FDL := [[0, 0, 0, 0]], flagIRchanged := False\<rparr>"
proof -
  have p: "(length [a, b] + 2 - 1) div 2 = Suc 0" by simp
  have hp: "h_pad [a, b] 2 2 0 = [a, b]"
    by (simp add: h_pad_def h_partit_def pad_beginning_def)
  have rs: "resize 4 [a, b] = [a, b, 0, 0]"
    by (simp add: resize_def four)
  have r4: "replicate 4 z = [z, z, z, z]" for z :: 'z
    by (simp add: four)
  show ?thesis
    unfolding upols_built_def Let_def p
    by (simp add: hp rs r4 assms)
qed

lemma upols_demo_first: "\<exists>out. process upols_demo [1, 2] None = Inr (upols_demo1, out)"
proof -
  have ok: "engine_ok upols_demo" using init_upols_demo by (rule init_ok) simp_all
  have n: "None \<noteq> Some ([] :: real list)" by simp
  have a: "method_kind upols_demo = Upols" "stored_h (update_ir upols_demo None) = Some [1, 1]"
    "flagIRchanged (update_ir upols_demo None)" "partition_sz upols_demo = Some 2" "(0 :: nat) < 2"
    "fit_slice (B upols_demo) [1, 2 :: real] = Inr [1, 2]"
    by (simp_all add: upols_demo_def)
  have b: "B upols_demo = 2" by (simp add: upols_demo_def)
  have bu: "upols_built (upols_demo\<lparr>NFFT := Some 4\<rparr>) [1, 1] 2 4 =
      upols_demo\<lparr>NFFT := Some 4, P := 1, input_buffer := [0, 0, 0, 0],
        H_upols := [rdft [1, 1, 0, 0]], nm := [0], FDL := [[0, 0, 0, 0]], flagIRchanged := False\<rparr>"
    by (simp add: upols_built_demo b)
  have e: "upols_after (upols_built (upols_demo\<lparr>NFFT := Some 4\<rparr>) [1, 1] 2 4) [1, 2] = upols_demo1"
    unfolding bu by (simp add: upols_after_def upols_demo1_def b)
  have u: "update_ir upols_demo None = upols_demo" by simp
  from process_UPOLS_given [OF ok n a]
  show ?thesis unfolding b partition_NFFT_demo u using e by simp
qed

lemma upols_demo_new_h:
  "\<exists>s' out. process upols_demo1 [3, 4] (Some [2, 2]) = Inr (s', out)
      \<and> NFFT s' = Some 4 \<and> input_buffer s' = [0, 0, 3, 4] \<and> FDL s' = [rdft [0, 0, 3, 4]]"
proof -
  have ok0: "engine_ok upols_demo" using init_upols_demo by (rule init_ok) simp_all
  obtain out where p: "process upols_demo [1, 2] None = Inr (upols_demo1, out)"
    using upols_demo_first by blast
  have n: "None \<noteq> Some ([] :: real list)" "Some [2, 2] \<noteq> Some ([] :: real list)" by simp_all
  have ok: "engine_ok upols_demo1" using ok0 n(1) p by (rule process_preserves_ok)
  define s1 where "s1 = update_ir upols_demo1 (Some [2, 2])"
  have a: "method_kind upols_demo1 = Upols"
    "stored_h s1 = Some [2, 2]"
    "flagIRchanged s1" "partition_sz upols_demo1 = Some 2"
    "(0 :: nat) < 2" "fit_slice (B upols_demo1) [3, 4 :: real] = Inr [3, 4]"
    by (simp_all add: s1_def update_ir_def np_any_ne_def generate_ref_def
        upols_demo1_def upols_demo_def)
  have b: "B upols_demo1 = 2" "B (s1\<lparr>NFFT := Some 4\<rparr>) = 2"
    by (simp_all add: s1_def upols_demo1_def upols_demo_def)
  have b1: "B s1 = 2" by (simp add: s1_def upols_demo1_def upols_demo_def)
  let ?sp = "upols_built (s1\<lparr>NFFT := Some 4\<rparr>) [2, 2] 2 4"
  have bu: "?sp = s1\<lparr>NFFT := Some 4, P := 1, input_buffer := [0, 0, 0, 0],
        H_upols := [rdft [2, 2, 0, 0]], nm := [0], FDL := [[0, 0, 0, 0]], flagIRchanged := False\<rparr>"
    using upols_built_demo [OF b(2)] by simp
  have bsp: "B ?sp = 2" using b by simp
  have e: "NFFT (upols_after ?sp [3, 4]) = Some 4"
    "input_buffer (upols_after ?sp [3, 4]) = [0, 0, 3, 4]"
    "FDL (upols_after ?sp [3, 4]) = [rdft [0, 0, 3, 4]]"
    unfolding bu by (simp_all add: upols_after_def b1 numeral_2_eq_2)
  from process_UPOLS_given [OF ok n(2) a(1) a(2,3) [unfolded s1_def] a(4-6)]
  show ?thesis unfolding b partition_NFFT_demo using e by (simp add: s1_def)
qed

section \<open>The claims\<close>

lemma init_ols_demo:
  "init ''ols'' 2 (Some [1, 1]) None False =
     Inr \<lparr>method_kind = OverlapSave, B = 2, NFFT = None, flagIRchanged = True,
          stored_h = Some [1, 1], ref = Some 2, left_overs = [0, 0], len_y_left = 0,
          partition_sz = None, normalize_flag = False, H = [], H_upols = [],
          OLS_input_buffer = [], input_buffer = [], P = 0, nm = [], FDL = []\<rparr>"
  by (simp add: init_def parse_method_simps generate_ref_def numeral_2_eq_2)



text \<open>
  C7, as stated, fails. A UPOLS engine with \<open>B = 2\<close>, the impulse response \<open>[1, 1]\<close> and the
  partition length 2 holds the input buffer \<open>[0, 0, 1, 2]\<close> after the block \<open>[1, 2]\<close>. The
  next call, with the new impulse response \<open>[2, 2]\<close> and the block \<open>[3, 4]\<close>, leaves the
  input buffer \<open>[0, 0, 3, 4]\<close>: the samples \<open>[1, 2]\<close> are gone, a shift by \<open>B\<close> would have
  kept them. And an OLA engine as constructed has a carry buffer of \<open>B\<close> entries while
  \<open>NFFT\<close> is not set.
\<close>

theorem buffers_reset_counterexample:
  "init ''upols'' 2 (Some [1, 1]) (Some 2) False = Inr upols_demo
   \<and> (\<exists>out. process upols_demo [1, 2] None = Inr (upols_demo1, out))
   \<and> input_buffer upols_demo1 = [0, 0, 1, 2]
   \<and> (\<exists>s' out. process upols_demo1 [3, 4] (Some [2, 2]) = Inr (s', out)
         \<and> NFFT s' = Some 4 \<and> input_buffer s' = [0, 0, 3, 4]
         \<and> input_buffer s' \<noteq> drop 2 (input_buffer upols_demo1) @ [3, 4])
   \<and> init ''ola'' 2 (Some [1, 1]) None False = Inr ola_demo
   \<and> NFFT ola_demo = None \<and> left_overs ola_demo = [0, 0]"
proof -
  have ib: "input_buffer upols_demo1 = [0, 0, 1, 2]" by (simp add: upols_demo1_def)
  obtain s' out where p: "process upols_demo1 [3, 4] (Some [2, 2]) = Inr (s', out)"
    and f: "NFFT s' = Some 4" "input_buffer s' = [0, 0, 3, 4]"
    using upols_demo_new_h by blast
  have "input_buffer s' \<noteq> drop 2 (input_buffer upols_demo1) @ [3, 4]"
    using f ib by (simp add: numeral_2_eq_2)
  then have "\<exists>s' out. process upols_demo1 [3, 4] (Some [2, 2]) = Inr (s', out)
         \<and> NFFT s' = Some 4 \<and> input_buffer s' = [0, 0, 3, 4]
         \<and> input_buffer s' \<noteq> drop 2 (input_buffer upols_demo1) @ [3, 4]"
    using p f by blast
  moreover have "NFFT ola_demo = None \<and> left_overs ola_demo = [0, 0]"
    by (simp add: ola_demo_def)
  ultimately show ?thesis
    using init_upols_demo upols_demo_first ib init_ola_demo by simp
qed



text \<open>
  C10. If the stored impulse response is all zeros and \<open>normalize\<close> is set, the reference
  that \<open>generate_ref\<close> computes is 0, and every call of \<open>process\<close> (without a new impulse
  response) that returns a block returns \<open>B\<close> samples none of which is finite: the
  division by the reference is not guarded. The state after the call is again such a
  state, so this holds for every call of the stream.
\<close>

theorem zero_impulse_response_divides_by_zero:
  assumes ok: "engine_ok s" and hv: "stored_h s = Some hv" and z: "list_all (\<lambda>v. v = 0) hv"
    and nf: "normalize_flag s" and r: "process s x None = Inr (s', out)"
  shows "ref (generate_ref s) = Some 0 \<and> ref s = Some 0
         \<and> length out = B s \<and> 0 < B s \<and> list_all (\<lambda>v. \<not> is_finite v) out
         \<and> engine_ok s' \<and> stored_h s' = Some hv \<and> normalize_flag s'"
proof -
  have sum: "sum_list (map abs hv) = 0" using z by (rule sum_abs_zero)
  have rf: "ref s = Some 0" using ok hv sum by (simp add: engine_ok_def)
  have g: "ref (generate_ref s) = Some 0" using hv sum by (simp add: generate_ref_def)
  have n: "None \<noteq> Some ([] :: real list)" by simp
  from process_facts [OF ok n r]
  obtain block where b: "out = emitted s' block" "length block = B s" "stored_h s' = stored_h s"
    "ref s' = ref s" "normalize_flag s' = normalize_flag s" by auto
  have "list_all (\<lambda>v. \<not> is_finite v) out"
    using b nf rf by (simp add: emitted_def list_all_iff float_div_zero)
  moreover have "engine_ok s'" using ok n r by (rule process_preserves_ok)
  moreover have "0 < B s" using ok by (simp add: engine_ok_def)
  ultimately show ?thesis using rf g b hv nf by simp
qed

theorem zero_impulse_response_divides_by_zero_witness:
  "\<exists>s0 s'. init ''ols'' 2 (Some [0, 0]) None True = Inr s0 \<and> engine_ok s0
      \<and> stored_h s0 = Some [0, 0] \<and> list_all (\<lambda>v. v = 0) [0, 0 :: real] \<and> normalize_flag s0
      \<and> process s0 [1, 2] None = Inr (s', [NaN, NaN]) \<and> ref s0 = Some 0
      \<and> list_all (\<lambda>v. \<not> is_finite v) [NaN, NaN]"
proof -
  define s0 where "s0 = \<lparr>method_kind = OverlapSave, B = 2, NFFT = None, flagIRchanged = True,
          stored_h = Some [0, 0], ref = Some 0, left_overs = [0, 0], len_y_left = 0,
          partition_sz = None, normalize_flag = True, H = [], H_upols = [],
          OLS_input_buffer = [], input_buffer = [], P = 0, nm = [], FDL = []\<rparr>"
  have i: "init ''ols'' 2 (Some [0, 0]) None True = Inr s0"
    unfolding s0_def by (rule init_ols_zero_demo)
  have ok: "engine_ok s0" using i by (rule init_ok) simp_all
  have blk: "ols_block s0 [0, 0] [1, 2] = [0, 0]"
    by (simp add: ols_block_def run_n_def ols_before_def s0_def resize_def py_last_def
        numeral_3_eq_3 cconv_demo_zero)
  have f: "fit_slice (B s0) [1, 2 :: real] = Inr [1, 2]" by (simp add: s0_def)
  have u: "stored_h (update_ir s0 None) = Some [0, 0]" by (simp add: s0_def)
  have m: "method_kind s0 = OverlapSave" by (simp add: s0_def)
  have n: "None \<noteq> Some ([] :: real list)" by simp
  have e: "emitted (ols_after s0 [0, 0] [1, 2]) [0, 0] = [NaN, NaN]"
    by (simp add: emitted_def float_div_def s0_def)
  have p: "process s0 [1, 2] None = Inr (ols_after s0 [0, 0] [1, 2], [NaN, NaN])"
    using process_OLS_cases [OF ok n m u, of "[1, 2]"] f blk e by simp
  have a: "stored_h s0 = Some [0, 0]" "list_all (\<lambda>v. v = 0) [0, 0 :: real]" "normalize_flag s0"
    by (simp_all add: s0_def)
  from zero_impulse_response_divides_by_zero [OF ok a p]
  have "ref s0 = Some 0 \<and> list_all (\<lambda>v. \<not> is_finite v) [NaN, NaN]" by simp
  then show ?thesis using i ok a p by blast
qed

text \<open>
  C8. A UPOLS engine built with a partition length \<open>L\<close> above the length of its (non-empty)
  impulse response processes a block of \<open>B\<close> samples without any exception: the call
  returns \<open>B\<close> samples, there is one partition in slot 0, and its row of \<open>H\<close> is the
  transform of the impulse response zero-padded to \<open>L\<close> (and then to the transform size).
  The slice \<open>h[ii:ii + L]\<close> is just shorter and never raises; the zeros come from the
  padding of \<open>fft(h_pad, n=NFFT)\<close>, which gives the same row as \<open>pad_the_end\<close> would.
\<close>

theorem short_impulse_response_one_partition:
  assumes i: "init name b (Some hv) (Some L) nflag = Inr s0" and m: "method_kind s0 = Upols"
    and ne: "hv \<noteq> []" and short: "length hv < L" and b: "0 < b" and x: "length x = b"
  shows "\<exists>s' out. process s0 x None = Inr (s', out) \<and> length out = b
           \<and> P s' = 1 \<and> nm s' = [0] \<and> NFFT s' = Some (int (partition_NFFT b L))
           \<and> H_upols s' = [rdft (resize (partition_NFFT b L) hv)]
           \<and> H_upols s' = [rdft (resize (partition_NFFT b L) (pad_the_end hv L))]"
proof -
  let ?n = "partition_NFFT b L"
  let ?sp = "upols_built (s0\<lparr>NFFT := Some (int ?n)\<rparr>) hv L ?n"
  from init_fields [OF i]
  have f: "B s0 = b" "stored_h s0 = Some hv" "flagIRchanged s0" "partition_sz s0 = Some L"
    by simp_all
  have ok: "engine_ok s0" using i b by (rule init_ok) (simp add: ne)
  have L: "0 < L" using short by simp
  have bn: "b \<le> ?n" using partition_NFFT_bounds [OF b] by simp
  have "?n = b + L + (b - gcd L b)" using b by (simp add: partition_NFFT_def)
  then have Ln: "L \<le> ?n" by linarith
  have su: "UPOLS_setup s0 (Some hv) = Inr ?sp"
    using UPOLS_setup_given [of s0 L hv] f L b ne by simp
  have rdy: "upols_ready ?sp ?n \<and> \<not> flagIRchanged ?sp"
    using bn ne L f by (intro upols_built_ready) simp_all
  have fs: "fit_slice (B ?sp) x = Inr x" using x f by simp
  have "process s0 x None = UPOLS s0 x (Some hv)"
    using m f by (simp add: process_def Let_def)
  also have "\<dots> = UPOLS ?sp x (Some hv)"
    using f(3) su rdy by (intro UPOLS_flag) simp_all
  also have "\<dots> = emit (upols_after ?sp x) (upols_block ?sp x)"
    using rdy fs b f by (intro UPOLS_eq [where n = ?n]) simp_all
  also have "\<dots> = Inr (upols_after ?sp x, emitted (upols_after ?sp x) (upols_block ?sp x))"
    using ok f by (intro emit_emitted) (simp add: engine_ok_def)
  finally have p: "process s0 x None =
      Inr (upols_after ?sp x, emitted (upols_after ?sp x) (upols_block ?sp x))" .
  have one: "(length hv + L - 1) div L = 1" using ne short by (rule one_partition)
  have hp: "h_pad hv L b 0 = hv" using short by (simp add: h_pad_def h_partit_def pad_beginning_def)
  have Hs: "H_upols (upols_after ?sp x) = [rdft (resize ?n hv)]"
    using one hp f by simp
  have len: "length (upols_block ?sp x) = b"
    using rdy x b f length_upols_block [of ?sp ?n x] by simp
  have Ps: "P (upols_after ?sp x) = 1 \<and> nm (upols_after ?sp x) = [0]"
    using one by (simp add: upols_built_def Let_def)
  show ?thesis
    using p Hs len Ps resize_pad_the_end [OF Ln, of hv] by simp
qed

theorem short_impulse_response_one_partition_witness:
  "\<exists>s0 s' out. init ''upols'' 2 (Some [1, 1]) (Some 4) False = Inr s0 \<and> method_kind s0 = Upols
      \<and> [1, 1 :: real] \<noteq> [] \<and> length [1, 1 :: real] < 4 \<and> (0 :: nat) < 2
      \<and> length [1, 2 :: real] = 2
      \<and> process s0 [1, 2] None = Inr (s', out) \<and> length out = 2 \<and> P s' = 1
      \<and> H_upols s' = [rdft (resize (partition_NFFT 2 4) [1, 1])]"
proof -
  define s0 where "s0 = \<lparr>method_kind = Upols, B = 2, NFFT = None, flagIRchanged = True,
          stored_h = Some [1, 1], ref = Some 2, left_overs = [0, 0], len_y_left = 0,
          partition_sz = Some 4, normalize_flag = False, H = [], H_upols = [],
          OLS_input_buffer = [], input_buffer = [], P = 0, nm = [], FDL = []\<rparr>"
  have i: "init ''upols'' 2 (Some [1, 1]) (Some 4) False = Inr s0"
    by (simp add: s0_def init_def parse_method_simps generate_ref_def numeral_2_eq_2)
  have m: "method_kind s0 = Upols" by (simp add: s0_def)
  have a: "[1, 1 :: real] \<noteq> []" "length [1, 1 :: real] < 4" "(0 :: nat) < 2"
    "length [1, 2 :: real] = 2" by simp_all
  from short_impulse_response_one_partition [OF i m a]
  show ?thesis using i m by auto
qed




end
